theory Spec2Isabelle
  imports Complex_Main
begin

section \<open>Python values used by app.py\<close>

text \<open>
  A Python \<^verbatim>\<open>str\<close> is a sequence of Unicode code points. The shop names the
  application compares are Korean, so a string is modelled as the list of its code points
  and not as a list of 8-bit characters. \<open>py\<close> embeds an ASCII literal.
\<close>

type_synonym py_str = "nat list"

definition py :: "string \<Rightarrow> py_str" where
  "py s = map of_char s"

text \<open>
  \<^verbatim>\<open>str.isspace\<close> for a single code point: the table of CPython's
  \<^verbatim>\<open>_PyUnicode_IsWhitespace\<close>.
\<close>

definition isspace :: "nat \<Rightarrow> bool" where
  "isspace c =
     ((9 \<le> c \<and> c \<le> 13) \<or> (28 \<le> c \<and> c \<le> 32) \<or> c = 133 \<or> c = 160 \<or> c = 5760
      \<or> (8192 \<le> c \<and> c \<le> 8202) \<or> c = 8232 \<or> c = 8233 \<or> c = 8239 \<or> c = 8287
      \<or> c = 12288)"

text \<open>\<^verbatim>\<open>s.strip()\<close>: leading and trailing whitespace removed.\<close>

definition strip :: "py_str \<Rightarrow> py_str" where
  "strip s = rev (dropWhile isspace (rev (dropWhile isspace s)))"

text \<open>
  Raised objects. The handlers of app.py distinguish three kinds: instances of
  \<^verbatim>\<open>TimeoutException\<close> (caught by the inner \<^verbatim>\<open>except TimeoutException\<close>),
  other instances of \<^verbatim>\<open>Exception\<close> (caught by the outer
  \<^verbatim>\<open>except Exception\<close>), and instances of classes that derive from
  \<^verbatim>\<open>BaseException\<close> only, such as \<^verbatim>\<open>KeyboardInterrupt\<close> or
  \<^verbatim>\<open>SystemExit\<close>, which no handler of the file matches. The string is the class name.
\<close>

datatype py_exn =
    TimeoutException
  | ZeroDivisionError
  | OtherException string
  | BaseExceptionOnly string

fun is_Exception :: "py_exn \<Rightarrow> bool" where
  "is_Exception TimeoutException = True"
| "is_Exception ZeroDivisionError = True"
| "is_Exception (OtherException n) = True"
| "is_Exception (BaseExceptionOnly n) = False"

section \<open>The rendered page and the browser session\<close>

text \<open>
  One \<^verbatim>\<open>li\<close> of the result list, as the loop body reads it:
  \<open>ad_element\<close> tells whether \<^verbatim>\<open>select_one(".gU6bV._DHlh")\<close> finds the ad marker,
  \<open>shop_name_element\<close> is the text of
  \<^verbatim>\<open>select_one(".place_bluelink.tWIhh > span.O_Uah")\<close> when that element exists.
\<close>

record element =
  ad_element :: bool
  shop_name_element :: "py_str option"

text \<open>
  What the browser does after one \<^verbatim>\<open>driver.get(url)\<close>. Each call on the driver
  either returns or raises. \<open>page_source p n\<close> is the list selected by
  \<^verbatim>\<open>soup.select("div.Ryr1F#_pcmap_list_scroll_container > ul > li")\<close> from the document
  read after \<open>n\<close> scrolls (or the exception raised by reading or parsing it), and
  \<open>execute_script p n\<close> is the outcome of the scroll issued after that read.
\<close>

record page =
  driver_get :: "py_exn option"
  wait_iframe :: "py_exn option"
  wait_container :: "py_exn option"
  page_source :: "nat \<Rightarrow> py_exn + element list"
  execute_script :: "nat \<Rightarrow> py_exn option"

text \<open>
  The session shared by a batch: \<open>d i\<close> is the page behaviour met by the \<open>i\<close>-th call of
  \<^verbatim>\<open>search_single_business\<close>.
\<close>

type_synonym driver = "nat \<Rightarrow> page"

text \<open>
  The effects of the program, in the order they happen. The Streamlit calls and
  \<^verbatim>\<open>time.sleep\<close> and \<^verbatim>\<open>driver.quit()\<close> are taken to return normally.
\<close>

datatype locator = SearchIframe | ListScrollContainer

datatype message = IframeTimeoutMsg | LoadFailedMsg | ErrorMsg py_exn

datatype event =
    Get py_str
  | StText py_str
  | WebDriverWait nat locator
  | StError message
  | PageSource
  | ExecuteScript
  | Sleep nat
  | Progress rat
  | Quit

section \<open>build_url\<close>

definition BASE_URL :: py_str where
  "BASE_URL = py ''https://map.naver.com/p/search/''"

definition build_url :: "py_str \<Rightarrow> py_str" where
  "build_url keyword = BASE_URL @ keyword"

section \<open>search_single_business\<close>

text \<open>
  The \<^verbatim>\<open>for shop_element in shop_list_element\<close> loop (lines 118-130). It either
  executes \<^verbatim>\<open>return rank\<close> or runs off the end of the list with the counter it
  reached. The counter \<open>rank\<close> is an argument because the source initialises it once,
  before the \<^verbatim>\<open>while\<close> loop (line 107).
\<close>

datatype loop_result = Return int | Fallthrough int

fun for_shop_element :: "int \<Rightarrow> element list \<Rightarrow> py_str \<Rightarrow> loop_result" where
  "for_shop_element rank [] shop_name = Fallthrough rank"
| "for_shop_element rank (shop_element # rest) shop_name =
     (let rank = rank + 1 in
      if ad_element shop_element then for_shop_element rank rest shop_name
      else (case shop_name_element shop_element of
              None \<Rightarrow> for_shop_element rank rest shop_name
            | Some text \<Rightarrow>
                if strip text = shop_name then Return rank
                else for_shop_element rank rest shop_name))"

text \<open>
  The \<^verbatim>\<open>while not found and scroll_count < max_scrolls\<close> loop (lines 111-134).
  \<^verbatim>\<open>found\<close> is never assigned after its initialisation to \<^verbatim>\<open>False\<close>, so the
  condition is \<open>scroll_count < max_scrolls\<close>. The result is the trace of the loop and
  either the value returned or the exception raised.
\<close>

function while_scroll ::
  "page \<Rightarrow> py_str \<Rightarrow> int \<Rightarrow> int \<Rightarrow> int \<Rightarrow> event list \<times> (py_exn + int)" where
  "while_scroll p shop_name max_scrolls scroll_count rank =
     (if scroll_count < max_scrolls then
        (case page_source p (nat scroll_count) of
           Inl e \<Rightarrow> ([PageSource], Inl e)
         | Inr shop_list_element \<Rightarrow>
             (case for_shop_element rank shop_list_element shop_name of
                Return r \<Rightarrow> ([PageSource], Inr r)
              | Fallthrough rank' \<Rightarrow>
                  (case execute_script p (nat scroll_count) of
                     Some e \<Rightarrow> ([PageSource, ExecuteScript], Inl e)
                   | None \<Rightarrow>
                       (case while_scroll p shop_name max_scrolls (scroll_count + 1) rank' of
                          (tr, res) \<Rightarrow> (PageSource # ExecuteScript # Sleep 1 # tr, res)))))
      else ([], Inr (- 1)))"
  by pat_completeness auto
termination
  by (relation "measure (\<lambda>(p, shop_name, max_scrolls, scroll_count, rank).
                            nat (max_scrolls - scroll_count))") auto

declare while_scroll.simps [simp del]

text \<open>
  The body of the outer \<^verbatim>\<open>try\<close> (lines 84-136). \<open>Inl e\<close>: the body raised \<open>e\<close>.
  The two inner handlers catch \<^verbatim>\<open>TimeoutException\<close> only, report and return -1.
\<close>

definition try_body :: "page \<Rightarrow> py_str \<Rightarrow> py_str \<Rightarrow> int \<Rightarrow> event list \<times> (py_exn + int)" where
  "try_body p keyword shop_name max_scrolls =
     (let url = build_url keyword in
      case driver_get p of
        Some e \<Rightarrow> ([Get url], Inl e)
      | None \<Rightarrow>
          (case wait_iframe p of
             Some e \<Rightarrow>
               if e = TimeoutException
               then ([Get url, StText url, WebDriverWait 10 SearchIframe,
                      StError IframeTimeoutMsg], Inr (- 1))
               else ([Get url, StText url, WebDriverWait 10 SearchIframe], Inl e)
           | None \<Rightarrow>
               (case wait_container p of
                  Some e \<Rightarrow>
                    if e = TimeoutException
                    then ([Get url, StText url, WebDriverWait 10 SearchIframe,
                           WebDriverWait 10 ListScrollContainer, StError LoadFailedMsg],
                          Inr (- 1))
                    else ([Get url, StText url, WebDriverWait 10 SearchIframe,
                           WebDriverWait 10 ListScrollContainer], Inl e)
                | None \<Rightarrow>
                    (case while_scroll p shop_name max_scrolls 0 0 of
                       (tr, res) \<Rightarrow>
                         ([Get url, StText url, WebDriverWait 10 SearchIframe,
                           WebDriverWait 10 ListScrollContainer] @ tr, res)))))"

text \<open>
  The function with its \<^verbatim>\<open>except Exception as e\<close> handler (lines 138-140): an instance
  of \<^verbatim>\<open>Exception\<close> is reported and turned into -1, anything else propagates.
\<close>

definition search_single_business ::
  "page \<Rightarrow> py_str \<Rightarrow> py_str \<Rightarrow> int \<Rightarrow> event list \<times> (py_exn + int)" where
  "search_single_business p keyword shop_name max_scrolls =
     (case try_body p keyword shop_name max_scrolls of
        (tr, Inl e) \<Rightarrow>
          if is_Exception e then (tr @ [StError (ErrorMsg e)], Inr (- 1)) else (tr, Inl e)
      | (tr, Inr rank) \<Rightarrow> (tr, Inr rank))"

text \<open>The default of the parameter \<^verbatim>\<open>max_scrolls=50\<close> (line 70).\<close>

definition default_max_scrolls :: int where
  "default_max_scrolls = 50"

section \<open>search_multiple_businesses\<close>

text \<open>
  One dictionary of \<^verbatim>\<open>results\<close>. The rank column holds the rank or the fixed text for
  a shop that was not found.
\<close>

datatype rank_cell = RankCell int | NotFoundText

record result_row =
  keyword_col :: py_str
  shop_name_col :: py_str
  rank_col :: rank_cell
  found_col :: bool

definition make_result :: "py_str \<Rightarrow> py_str \<Rightarrow> int \<Rightarrow> result_row" where
  "make_result keyword shop_name rank =
     \<lparr>keyword_col = keyword, shop_name_col = shop_name,
      rank_col = (if rank > 0 then RankCell rank else NotFoundText),
      found_col = (rank > 0)\<rparr>"

text \<open>
  \<^verbatim>\<open>progress_bar.progress(i / total, ...)\<close> under \<^verbatim>\<open>if progress_bar\<close>. The quotient
  is kept exact (\<open>total_n\<close> is the source's \<^verbatim>\<open>total\<close>); with \<open>total_n = 0\<close> Python's division raises.
\<close>

definition report_progress :: "bool \<Rightarrow> nat \<Rightarrow> nat \<Rightarrow> event list \<times> py_exn option" where
  "report_progress progress_bar i total_n =
     (if progress_bar then
        (if total_n = 0 then ([], Some ZeroDivisionError)
         else ([Progress (of_nat i / of_nat total_n)], None))
      else ([], None))"

text \<open>
  The \<^verbatim>\<open>for i, (keyword, shop_name) in enumerate(zip(keywords, shop_names))\<close> loop
  (lines 160-174), started at index \<open>i\<close>. \<open>Inr rows\<close>: the rows appended to
  \<^verbatim>\<open>results\<close>; \<open>Inl e\<close>: the loop was left by the exception \<open>e\<close>.
\<close>

fun for_pairs ::
  "driver \<Rightarrow> bool \<Rightarrow> nat \<Rightarrow> nat \<Rightarrow> (py_str \<times> py_str) list
     \<Rightarrow> event list \<times> (py_exn + result_row list)" where
  "for_pairs d progress_bar total_n i [] = ([], Inr [])"
| "for_pairs d progress_bar total_n i ((keyword, shop_name) # rest) =
     (case report_progress progress_bar i total_n of
        (tr0, Some e) \<Rightarrow> (tr0, Inl e)
      | (tr0, None) \<Rightarrow>
          (case search_single_business (d i) keyword shop_name default_max_scrolls of
             (tr1, Inl e) \<Rightarrow> (tr0 @ tr1, Inl e)
           | (tr1, Inr rank) \<Rightarrow>
               (case for_pairs d progress_bar total_n (Suc i) rest of
                  (tr2, Inl e) \<Rightarrow> (tr0 @ tr1 @ Sleep 1 # tr2, Inl e)
                | (tr2, Inr results) \<Rightarrow>
                    (tr0 @ tr1 @ Sleep 1 # tr2,
                     Inr (make_result keyword shop_name rank # results)))))"

text \<open>
  The whole function (lines 143-181). \<open>setup_driver\<close> is the outcome of
  \<^verbatim>\<open>setup_driver()\<close>, which runs before the \<^verbatim>\<open>try\<close>. The \<^verbatim>\<open>finally\<close> block
  runs on every way out of the loop; the data frame is returned when the loop ended
  without an exception.
\<close>

definition search_multiple_businesses ::
  "py_exn + driver \<Rightarrow> py_str list \<Rightarrow> py_str list \<Rightarrow> bool
     \<Rightarrow> event list \<times> (py_exn + result_row list)" where
  "search_multiple_businesses setup_driver keywords shop_names progress_bar =
     (case setup_driver of
        Inl e \<Rightarrow> ([], Inl e)
      | Inr d \<Rightarrow>
          (case for_pairs d progress_bar (length keywords) 0 (zip keywords shop_names) of
             (tr, res) \<Rightarrow>
               (tr @ Quit # (if progress_bar then [Progress 1] else []), res)))"

section \<open>Notions used to state the properties\<close>

text \<open>
  \<open>matches e shop_name\<close>: the two tests of the loop body that lead to
  \<^verbatim>\<open>return rank\<close>, that is, no ad marker and a name element whose stripped text is the
  target. \<open>entries\<close> and \<open>walked\<close> count the entries of the snapshots read in the cycles
  \<open>a, ..., b - 1\<close>. \<open>navigation_ok\<close> and \<open>navigation_timeout\<close> describe how the three
  navigation calls end, \<open>raises_only_Exception\<close> says that whatever a page raises is an
  instance of \<^verbatim>\<open>Exception\<close>, \<open>returns_rank\<close> that the resolver returns on every page
  of a session. \<open>progress_fractions\<close> reads the reported fractions off a trace and
  \<open>resolver_event\<close> marks the events that are neither a progress report nor the quit.
  \<open>clean_cycles p shop_name n\<close> says that the first \<open>n\<close> cycles neither raise nor find
  the target, and \<open>raised p shop_name max_scrolls e\<close> that \<open>e\<close> is raised by the first
  call of a resolution that raises: by \<^verbatim>\<open>driver.get\<close>, by one of the two waits, or, in
  a cycle within the budget that follows clean cycles, by reading the page or by the scroll.
  The remaining definitions are concrete pages, feeds and sessions.
\<close>

definition matches :: "element \<Rightarrow> py_str \<Rightarrow> bool" where
  "matches e shop_name =
     (\<not> ad_element e \<and>
      (case shop_name_element e of None \<Rightarrow> False | Some text \<Rightarrow> strip text = shop_name))"

definition organic :: "string \<Rightarrow> element" where
  "organic n = \<lparr>ad_element = False, shop_name_element = Some (py n)\<rparr>"

definition sponsored :: "string \<Rightarrow> element" where
  "sponsored n = \<lparr>ad_element = True, shop_name_element = Some (py n)\<rparr>"

definition feed_page :: "(nat \<Rightarrow> element list) \<Rightarrow> page" where
  "feed_page f =
     \<lparr>driver_get = None, wait_iframe = None, wait_container = None,
      page_source = (\<lambda>n. Inr (f n)), execute_script = (\<lambda>n. None)\<rparr>"

definition growing_feed :: "nat \<Rightarrow> element list" where
  "growing_feed n =
     (if n = 0 then [organic ''A'', organic ''B'']
      else [organic ''A'', organic ''B'', organic ''C''])"

definition entries :: "page \<Rightarrow> nat \<Rightarrow> element list" where
  "entries p n = (case page_source p n of Inl e \<Rightarrow> [] | Inr es \<Rightarrow> es)"

definition walked :: "page \<Rightarrow> nat \<Rightarrow> nat \<Rightarrow> nat" where
  "walked p a b = sum_list (map (\<lambda>j. length (entries p j)) [a..<b])"

definition navigation_ok :: "page \<Rightarrow> bool" where
  "navigation_ok p = (driver_get p = None \<and> wait_iframe p = None \<and> wait_container p = None)"

definition cycle_events :: "event list" where
  "cycle_events = [PageSource, ExecuteScript, Sleep 1]"

definition navigation_events :: "py_str \<Rightarrow> event list" where
  "navigation_events keyword =
     [Get (build_url keyword), StText (build_url keyword), WebDriverWait 10 SearchIframe,
      WebDriverWait 10 ListScrollContainer]"

definition ad_then_match_feed :: "nat \<Rightarrow> element list" where
  "ad_then_match_feed n = [sponsored ''A'', organic '' A '', organic ''B'']"

definition static_feed :: "nat \<Rightarrow> element list" where
  "static_feed n = [organic ''A'', organic ''B'']"

definition appending_feed :: "nat \<Rightarrow> element list" where
  "appending_feed n = (if n = 0 then [organic ''A''] else [organic ''A'', organic ''B''])"

definition raises_only_Exception :: "page \<Rightarrow> bool" where
  "raises_only_Exception p =
     ((\<forall>e. driver_get p = Some e \<longrightarrow> is_Exception e)
      \<and> (\<forall>e. wait_iframe p = Some e \<longrightarrow> is_Exception e)
      \<and> (\<forall>e. wait_container p = Some e \<longrightarrow> is_Exception e)
      \<and> (\<forall>n e. page_source p n = Inl e \<longrightarrow> is_Exception e)
      \<and> (\<forall>n e. execute_script p n = Some e \<longrightarrow> is_Exception e))"

definition navigation_timeout :: "page \<Rightarrow> bool" where
  "navigation_timeout p =
     (driver_get p = None
      \<and> (wait_iframe p = Some TimeoutException
         \<or> (wait_iframe p = None \<and> wait_container p = Some TimeoutException)))"

fun progress_fractions :: "event list \<Rightarrow> rat list" where
  "progress_fractions [] = []"
| "progress_fractions (Progress f # tr) = f # progress_fractions tr"
| "progress_fractions (ev # tr) = progress_fractions tr"

fun resolver_event :: "event \<Rightarrow> bool" where
  "resolver_event (Progress f) = False"
| "resolver_event Quit = False"
| "resolver_event ev = True"

definition returns_rank :: "driver \<Rightarrow> bool" where
  "returns_rank d =
     (\<forall>i k t. \<exists>r. snd (search_single_business (d i) k t default_max_scrolls) = Inr r)"

definition timeout_page :: page where
  "timeout_page = (feed_page static_feed)\<lparr>wait_iframe := Some TimeoutException\<rparr>"

definition interrupted_page :: page where
  "interrupted_page =
     (feed_page static_feed)\<lparr>driver_get := Some (BaseExceptionOnly ''KeyboardInterrupt'')\<rparr>"

definition crashed_page :: page where
  "crashed_page =
     (feed_page static_feed)\<lparr>driver_get := Some (OtherException ''WebDriverException'')\<rparr>"

definition fourth_feed :: "nat \<Rightarrow> element list" where
  "fourth_feed n = [organic ''W'', organic ''X'', organic ''Y'', organic ''D'']"

definition timeout_then_found :: driver where
  "timeout_then_found i = (if i = 0 then timeout_page else feed_page fourth_feed)"

definition interrupted_then_found :: driver where
  "interrupted_then_found i = (if i = 0 then interrupted_page else feed_page fourth_feed)"

definition crashed_then_found :: driver where
  "crashed_then_found i = (if i = 0 then crashed_page else feed_page fourth_feed)"

definition static_driver :: driver where
  "static_driver i = feed_page static_feed"

definition later_match_feed :: "nat \<Rightarrow> element list" where
  "later_match_feed n =
     (if n = 0 then [sponsored ''A'', organic ''X'']
      else [sponsored ''A'', organic ''X'', organic ''A''])"

definition clean_cycles :: "page \<Rightarrow> py_str \<Rightarrow> nat \<Rightarrow> bool" where
  "clean_cycles p shop_name n =
     (\<forall>j<n. (\<exists>es. page_source p j = Inr es \<and> (\<forall>x\<in>set es. \<not> matches x shop_name))
            \<and> execute_script p j = None)"

definition raised :: "page \<Rightarrow> py_str \<Rightarrow> int \<Rightarrow> py_exn \<Rightarrow> bool" where
  "raised p shop_name max_scrolls e =
     (driver_get p = Some e
      \<or> (driver_get p = None \<and> wait_iframe p = Some e)
      \<or> (driver_get p = None \<and> wait_iframe p = None \<and> wait_container p = Some e)
      \<or> (navigation_ok p
          \<and> (\<exists>n. int n < max_scrolls \<and> clean_cycles p shop_name n
                \<and> (page_source p n = Inl e
                    \<or> (\<exists>es. page_source p n = Inr es
                          \<and> (\<forall>x\<in>set es. \<not> matches x shop_name)
                          \<and> execute_script p n = Some e)))))"

definition exit_on_scroll_page :: page where
  "exit_on_scroll_page =
     (feed_page static_feed)
       \<lparr>execute_script := (\<lambda>n. if n = 1 then Some (BaseExceptionOnly ''SystemExit'') else None)\<rparr>"

definition crashed_then_exit :: driver where
  "crashed_then_exit i = (if i = 0 then crashed_page else exit_on_scroll_page)"

section \<open>Properties\<close>

lemma for_no_match:
  "\<forall>e\<in>set es. \<not> matches e t \<Longrightarrow> for_shop_element r es t = Fallthrough (r + int (length es))"
  by (induction es arbitrary: r) (auto simp: matches_def Let_def split: option.splits)

lemma for_first_match:
  "\<forall>x\<in>set pre. \<not> matches x t \<Longrightarrow> matches e t \<Longrightarrow>
   for_shop_element r (pre @ e # post) t = Return (r + int (length pre) + 1)"
  by (induction pre arbitrary: r) (auto simp: matches_def Let_def split: option.splits)

lemma for_Fallthrough_D:
  "for_shop_element r es t = Fallthrough k \<Longrightarrow>
   (\<forall>e\<in>set es. \<not> matches e t) \<and> k = r + int (length es)"
proof (induction es arbitrary: r)
  case Nil
  then show ?case by simp
next
  case (Cons a es)
  from Cons.prems have a: "\<not> matches a t" and rest: "for_shop_element (r + 1) es t = Fallthrough k"
    by (auto simp: matches_def Let_def split: option.splits if_splits)
  from Cons.IH[OF rest] a show ?case by simp
qed

lemma for_Return_D:
  "for_shop_element r es t = Return k \<Longrightarrow>
   \<exists>pre e post. es = pre @ e # post \<and> (\<forall>x\<in>set pre. \<not> matches x t) \<and> matches e t
      \<and> k = r + int (length pre) + 1"
proof (induction es arbitrary: r)
  case Nil
  then show ?case by simp
next
  case (Cons a es)
  show ?case
  proof (cases "matches a t")
    case True
    with Cons.prems have "k = r + 1"
      by (auto simp: matches_def Let_def split: option.splits if_splits)
    with True show ?thesis by (intro exI[of _ "[]"] exI[of _ a] exI[of _ es]) simp
  next
    case False
    with Cons.prems have "for_shop_element (r + 1) es t = Return k"
      by (auto simp: matches_def Let_def split: option.splits if_splits)
    from Cons.IH[OF this] obtain pre e post where
      "es = pre @ e # post" "\<forall>x\<in>set pre. \<not> matches x t" "matches e t" "k = r + 1 + int (length pre) + 1"
      by blast
    with False show ?thesis
      by (intro exI[of _ "a # pre"] exI[of _ e] exI[of _ post]) simp
  qed
qed

lemma walked_same: "walked p a a = 0"
  by (simp add: walked_def)

lemma walked_step: "a < b \<Longrightarrow> walked p a b = length (entries p a) + walked p (Suc a) b"
  by (simp add: walked_def upt_conv_Cons)

lemma while_scroll_exhausted:
  "\<lbrakk>0 \<le> sc;
    \<forall>n. sc \<le> int n \<and> int n < m \<longrightarrow>
        (\<exists>es. page_source p n = Inr es \<and> (\<forall>e\<in>set es. \<not> matches e t)) \<and> execute_script p n = None\<rbrakk>
   \<Longrightarrow> while_scroll p t m sc rank = (concat (replicate (nat (m - sc)) cycle_events), Inr (- 1))"
proof (induction p t m sc rank rule: while_scroll.induct)
  case (1 p t m sc rank)
  show ?case
  proof (cases "sc < m")
    case False
    then show ?thesis by (subst while_scroll.simps) simp
  next
    case True
    with "1.prems" have "sc \<le> int (nat sc) \<and> int (nat sc) < m" by simp
    with "1.prems"(2) obtain es where
      es: "page_source p (nat sc) = Inr es" "\<forall>e\<in>set es. \<not> matches e t"
      and scr: "execute_script p (nat sc) = None" by blast
    have ft: "for_shop_element rank es t = Fallthrough (rank + int (length es))"
      using es(2) by (rule for_no_match)
    have rest: "\<forall>n. sc + 1 \<le> int n \<and> int n < m \<longrightarrow>
        (\<exists>es. page_source p n = Inr es \<and> (\<forall>e\<in>set es. \<not> matches e t)) \<and> execute_script p n = None"
      using "1.prems"(2) by simp
    have ih: "while_scroll p t m (sc + 1) (rank + int (length es)) =
                (concat (replicate (nat (m - (sc + 1))) cycle_events), Inr (- 1))"
      using "1.IH"[OF True es(1) ft scr _ rest] "1.prems"(1) by simp
    have n: "nat (m - sc) = Suc (nat (m - (sc + 1)))"
      using True by simp
    show ?thesis
      by (subst while_scroll.simps) (simp add: True es(1) ft scr ih n cycle_events_def)
  qed
qed

lemma while_scroll_Return_D:
  "\<lbrakk>snd (while_scroll p t m sc rank) = Inr r; r \<noteq> - 1; 0 \<le> sc; 0 \<le> rank\<rbrakk>
   \<Longrightarrow> \<exists>n pre e post. nat sc \<le> n \<and> int n < m \<and> page_source p n = Inr (pre @ e # post)
         \<and> (\<forall>x\<in>set pre. \<not> matches x t) \<and> matches e t
         \<and> r = rank + int (walked p (nat sc) n) + int (length pre) + 1"
proof (induction p t m sc rank rule: while_scroll.induct)
  case (1 p t m sc rank)
  have lt: "sc < m"
  proof (rule ccontr)
    assume "\<not> sc < m"
    then have "while_scroll p t m sc rank = ([], Inr (- 1))"
      by (subst while_scroll.simps) simp
    with "1.prems" show False by simp
  qed
  from "1.prems"(1) lt obtain es where es: "page_source p (nat sc) = Inr es"
    by (subst (asm) while_scroll.simps) (auto split: sum.splits)
  show ?case
  proof (cases "for_shop_element rank es t")
    case (Return r')
    with "1.prems"(1) lt es have "r = r'"
      by (subst (asm) while_scroll.simps) simp
    with for_Return_D[OF Return] obtain pre e post where
      "es = pre @ e # post" "\<forall>x\<in>set pre. \<not> matches x t" "matches e t"
      "r = rank + int (length pre) + 1" by blast
    with es lt "1.prems"(3) show ?thesis
      by (intro exI[of _ "nat sc"] exI[of _ pre] exI[of _ e] exI[of _ post])
         (simp add: walked_same)
  next
    case (Fallthrough rank')
    from for_Fallthrough_D[OF Fallthrough] have rank': "rank' = rank + int (length es)" by simp
    from "1.prems"(1) lt es Fallthrough have scr: "execute_script p (nat sc) = None"
      by (subst (asm) while_scroll.simps) (auto split: option.splits)
    from "1.prems"(1) lt es Fallthrough scr
    have rec: "snd (while_scroll p t m (sc + 1) rank') = Inr r"
      by (subst (asm) while_scroll.simps) (simp split: prod.splits)
    have "0 \<le> rank'" using rank' "1.prems"(4) by simp
    from "1.IH"[OF lt es Fallthrough scr rec "1.prems"(2) _ this] "1.prems"(3)
    obtain n pre e post where
      n: "nat (sc + 1) \<le> n" "int n < m" "page_source p n = Inr (pre @ e # post)"
         "\<forall>x\<in>set pre. \<not> matches x t" "matches e t"
         "r = rank' + int (walked p (nat (sc + 1)) n) + int (length pre) + 1"
      by auto
    have suc: "nat (sc + 1) = Suc (nat sc)" using "1.prems"(3) by simp
    have "walked p (nat sc) n = length es + walked p (Suc (nat sc)) n"
      using n(1) suc es by (simp add: walked_step entries_def)
    with n rank' suc show ?thesis
      by (intro exI[of _ n] exI[of _ pre] exI[of _ e] exI[of _ post]) simp
  qed
qed

lemmas concrete_defs =
  feed_page_def organic_def sponsored_def py_def strip_def isspace_def matches_def
  navigation_ok_def

lemma count_list_cycles:
  "count_list (concat (replicate n cycle_events)) PageSource = n"
  "count_list (concat (replicate n cycle_events)) ExecuteScript = n"
  by (induction n) (simp_all add: cycle_events_def)

lemma count_list_navigation:
  "count_list (navigation_events k) PageSource = 0"
  "count_list (navigation_events k) ExecuteScript = 0"
  by (simp_all add: navigation_events_def)

lemma try_body_navigation_ok:
  "navigation_ok p \<Longrightarrow>
   try_body p k t m =
     (navigation_events k @ fst (while_scroll p t m 0 0), snd (while_scroll p t m 0 0))"
  by (simp add: try_body_def navigation_ok_def navigation_events_def Let_def split: prod.splits)

lemma try_body_Return_D:
  "snd (try_body p k t m) = Inr r \<Longrightarrow> r \<noteq> - 1 \<Longrightarrow>
   navigation_ok p \<and> snd (while_scroll p t m 0 0) = Inr r"
  by (auto simp: try_body_def navigation_ok_def Let_def split: option.splits if_splits prod.splits)

lemma search_single_business_Return_D:
  "snd (search_single_business p k t m) = Inr r \<Longrightarrow> r \<noteq> - 1 \<Longrightarrow>
   snd (try_body p k t m) = Inr r"
  by (auto simp: search_single_business_def split: prod.splits sum.splits if_splits)

lemma search_single_business_no_raise:
  "snd (try_body p k t m) = Inr r \<Longrightarrow>
   search_single_business p k t m = try_body p k t m"
  by (auto simp: search_single_business_def split: prod.splits sum.splits)

lemma while_scroll_first_cycle:
  "\<lbrakk>0 < m; page_source p 0 = Inr (pre @ e # post); \<forall>x\<in>set pre. \<not> matches x t; matches e t\<rbrakk>
   \<Longrightarrow> while_scroll p t m 0 0 = ([PageSource], Inr (int (length pre) + 1))"
  by (subst while_scroll.simps) (simp add: for_first_match)

lemma search_single_business_exhausted:
  assumes "navigation_ok p"
    and "\<forall>n. int n < m \<longrightarrow>
           (\<exists>es. page_source p n = Inr es \<and> (\<forall>e\<in>set es. \<not> matches e t))
           \<and> execute_script p n = None"
  shows "search_single_business p k t m =
           (navigation_events k @ concat (replicate (nat m) cycle_events), Inr (- 1))"
proof -
  have "while_scroll p t m 0 0 = (concat (replicate (nat (m - 0)) cycle_events), Inr (- 1))"
    by (rule while_scroll_exhausted) (use assms(2) in simp_all)
  then have "try_body p k t m =
               (navigation_events k @ concat (replicate (nat m) cycle_events), Inr (- 1))"
    by (simp add: try_body_navigation_ok[OF assms(1)])
  then show ?thesis
    by (simp add: search_single_business_no_raise[of _ _ _ _ "- 1"])
qed

text \<open>
  Claim C4. When navigation succeeds, no call raises and no snapshot read within the budget
  holds a non-sponsored entry whose trimmed name is the target, the resolver runs exactly
  \<open>max_scrolls\<close> cycles of snapshot, scroll and pause and then returns -1. Nothing is
  asked of how the feed changes between cycles, so a feed that never grows is covered.
\<close>

theorem budget_exhausted_not_found:
  assumes "navigation_ok p"
    and "\<forall>n. int n < max_scrolls \<longrightarrow>
           (\<exists>es. page_source p n = Inr es \<and> (\<forall>e\<in>set es. \<not> matches e shop_name))
           \<and> execute_script p n = None"
  shows "search_single_business p keyword shop_name max_scrolls =
           (navigation_events keyword @ concat (replicate (nat max_scrolls) cycle_events),
            Inr (- 1))
         \<and> count_list (fst (search_single_business p keyword shop_name max_scrolls)) PageSource
             = nat max_scrolls
         \<and> count_list (fst (search_single_business p keyword shop_name max_scrolls)) ExecuteScript
             = nat max_scrolls"
proof -
  have s: "search_single_business p keyword shop_name max_scrolls =
             (navigation_events keyword @ concat (replicate (nat max_scrolls) cycle_events),
              Inr (- 1))"
    using assms by (rule search_single_business_exhausted)
  show ?thesis
    by (simp add: s count_list_cycles count_list_navigation)
qed

theorem budget_exhausted_not_found_witness:
  "search_single_business (feed_page static_feed) (py ''q'') (py ''Z'') 5 =
     (navigation_events (py ''q'') @ concat (replicate 5 cycle_events), Inr (- 1))
   \<and> count_list (fst (search_single_business (feed_page static_feed) (py ''q'') (py ''Z'') 5))
        PageSource = 5"
proof -
  have nav: "navigation_ok (feed_page static_feed)"
    by (simp add: concrete_defs)
  have feed: "\<forall>n. int n < 5 \<longrightarrow>
           (\<exists>es. page_source (feed_page static_feed) n = Inr es
                 \<and> (\<forall>e\<in>set es. \<not> matches e (py ''Z'')))
           \<and> execute_script (feed_page static_feed) n = None"
    by (simp add: concrete_defs static_feed_def)
  show ?thesis
    using budget_exhausted_not_found[OF nav feed, of "py ''q''"]
    by (simp add: count_list_cycles count_list_navigation)
qed

text \<open>
  Claim C1, evaluated where it fails. The first snapshot shows A and B, the second A, B and C.
  The first non-sponsored entry named C is the third entry of the feed, and the resolver
  returns 5: line 107 sets \<open>rank\<close> to 0 before the \<^verbatim>\<open>while\<close> loop only, so the
  second walk goes on counting from 2.
\<close>

theorem rank_inflated_after_first_cycle:
  "growing_feed 1 = [organic ''A'', organic ''B'', organic ''C'']
   \<and> snd (search_single_business (feed_page growing_feed) (py ''q'') (py ''C'') 50) = Inr 5"
  by (simp add: search_single_business_def try_body_def while_scroll.simps Let_def
        growing_feed_def feed_page_def organic_def py_def strip_def isspace_def)

text \<open>
  Claim C2, evaluated where it fails. The first snapshot shows A, the second A and B. The walk
  of the first snapshot gives A the number 1 and leaves the counter at 1; a fresh walk of the
  second snapshot would stop at B with 2; the resolver stops at B with 3, so in the second
  cycle A was given the number 2, not 1 again.
\<close>

theorem ordinals_not_recomputed:
  "for_shop_element 0 (appending_feed 0) (py ''B'') = Fallthrough 1
   \<and> for_shop_element 0 (appending_feed 1) (py ''B'') = Return 2
   \<and> snd (search_single_business (feed_page appending_feed) (py ''q'') (py ''B'') 50) = Inr 3"
  by (simp add: search_single_business_def try_body_def while_scroll.simps Let_def
        appending_feed_def feed_page_def organic_def py_def strip_def isspace_def)

lemma progress_fractions_append:
  "progress_fractions (xs @ ys) = progress_fractions xs @ progress_fractions ys"
  by (induction xs rule: progress_fractions.induct) simp_all

lemma progress_fractions_resolver:
  "\<forall>ev\<in>set tr. resolver_event ev \<Longrightarrow> progress_fractions tr = []"
  by (induction tr rule: progress_fractions.induct) simp_all

lemma while_scroll_events:
  "\<forall>ev\<in>set (fst (while_scroll p t m sc rank)). ev \<in> {PageSource, ExecuteScript, Sleep 1}"
proof (induction p t m sc rank rule: while_scroll.induct)
  case (1 p t m sc rank)
  show ?case
    using "1.IH"
    by (subst while_scroll.simps)
       (auto split: sum.splits loop_result.splits option.splits prod.splits)
qed

lemma while_scroll_resolver_events:
  "\<forall>ev\<in>set (fst (while_scroll p t m sc rank)). resolver_event ev"
  using while_scroll_events[of p t m sc rank] by auto

lemma while_scroll_raise_D:
  "snd (while_scroll p t m sc rank) = Inl e \<Longrightarrow>
   (\<exists>n. page_source p n = Inl e) \<or> (\<exists>n. execute_script p n = Some e)"
proof (induction p t m sc rank rule: while_scroll.induct)
  case (1 p t m sc rank)
  from "1.prems" show ?case
    using "1.IH"
    by (subst (asm) while_scroll.simps)
       (auto split: sum.splits loop_result.splits option.splits prod.splits if_splits)
qed

lemma try_body_resolver_events:
  "\<forall>ev\<in>set (fst (try_body p k t m)). resolver_event ev"
  using while_scroll_resolver_events[of p t m 0 0]
  by (auto simp: try_body_def Let_def split: option.splits prod.splits)

lemma search_single_business_resolver_events:
  "\<forall>ev\<in>set (fst (search_single_business p k t m)). resolver_event ev"
  using try_body_resolver_events[of p k t m]
  by (auto simp: search_single_business_def split: prod.splits sum.splits)

lemma try_body_raise_D:
  "snd (try_body p k t m) = Inl e \<Longrightarrow> raises_only_Exception p \<Longrightarrow> is_Exception e"
  using while_scroll_raise_D[of p t m 0 0 e]
  by (auto simp: try_body_def raises_only_Exception_def Let_def
           split: option.splits prod.splits if_splits)

lemma search_single_business_caught:
  "snd (try_body p k t m) = Inl e \<Longrightarrow> is_Exception e \<Longrightarrow>
   snd (search_single_business p k t m) = Inr (- 1)"
  by (auto simp: search_single_business_def split: prod.splits sum.splits)

lemma search_single_business_returns:
  "raises_only_Exception p \<Longrightarrow> \<exists>r. snd (search_single_business p k t m) = Inr r"
proof (cases "snd (try_body p k t m)")
  case (Inl e)
  assume "raises_only_Exception p"
  with Inl have "is_Exception e" by (simp add: try_body_raise_D)
  with Inl show ?thesis by (simp add: search_single_business_caught)
next
  case (Inr r)
  then show ?thesis by (simp add: search_single_business_no_raise)
qed

lemma search_single_business_navigation_timeout:
  "navigation_timeout p \<Longrightarrow>
   snd (search_single_business p k t m) = Inr (- 1)
   \<and> PageSource \<notin> set (fst (search_single_business p k t m))
   \<and> ExecuteScript \<notin> set (fst (search_single_business p k t m))"
  by (auto simp: navigation_timeout_def search_single_business_def try_body_def Let_def)

lemma for_pairs_resolver_step:
  "for_pairs d pb tn i ((k, t) # rest) =
     (case report_progress pb i tn of
        (tr0, Some e) \<Rightarrow> (tr0, Inl e)
      | (tr0, None) \<Rightarrow>
          (case search_single_business (d i) k t default_max_scrolls of
             (tr1, Inl e) \<Rightarrow> (tr0 @ tr1, Inl e)
           | (tr1, Inr rank) \<Rightarrow>
               (tr0 @ tr1 @ Sleep 1 # fst (for_pairs d pb tn (Suc i) rest),
                map_sum id ((#) (make_result k t rank)) (snd (for_pairs d pb tn (Suc i) rest)))))"
  by (auto split: prod.splits option.splits sum.splits)

lemma for_pairs_rows_keys:
  "snd (for_pairs d pb tn i ps) = Inr rows \<Longrightarrow>
   map (\<lambda>r. (keyword_col r, shop_name_col r)) rows = ps"
proof (induction ps arbitrary: i rows)
  case Nil
  then show ?case by simp
next
  case (Cons a ps)
  obtain k t where a: "a = (k, t)" by (cases a)
  from Cons.prems obtain rank rows' where
    "snd (for_pairs d pb tn (Suc i) ps) = Inr rows'" "rows = make_result k t rank # rows'"
    unfolding a
    by (auto split: prod.splits option.splits sum.splits)
  with Cons.IH[of "Suc i" rows'] show ?case
    by (simp add: a make_result_def)
qed

lemma for_pairs_rows_nth:
  "snd (for_pairs d pb tn i ps) = Inr rows \<Longrightarrow> j < length rows \<Longrightarrow>
   \<exists>rank. snd (search_single_business (d (i + j)) (fst (ps ! j)) (snd (ps ! j))
                  default_max_scrolls) = Inr rank
          \<and> rows ! j = make_result (fst (ps ! j)) (snd (ps ! j)) rank"
proof (induction ps arbitrary: i j rows)
  case Nil
  then show ?case by simp
next
  case (Cons a ps)
  obtain k t where a: "a = (k, t)" by (cases a)
  from Cons.prems(1) obtain rank rows' where
    r: "snd (search_single_business (d i) k t default_max_scrolls) = Inr rank"
       "snd (for_pairs d pb tn (Suc i) ps) = Inr rows'" "rows = make_result k t rank # rows'"
    unfolding a
    by (auto split: prod.splits option.splits sum.splits)
  show ?case
  proof (cases j)
    case 0
    with r a show ?thesis by simp
  next
    case (Suc j')
    with Cons.prems(2) r(3) have "j' < length rows'" by simp
    from Cons.IH[OF r(2) this] Suc r(3) show ?thesis by simp
  qed
qed

lemma report_progress_ok:
  "pb \<longrightarrow> tn \<noteq> 0 \<Longrightarrow> snd (report_progress pb i tn) = None"
  by (auto simp: report_progress_def)

lemma map_sum_id_Inr_iff:
  "map_sum id f x = Inr y \<longleftrightarrow> (\<exists>z. x = Inr z \<and> y = f z)"
  by (cases x) auto

lemma for_pairs_returns:
  "returns_rank d \<Longrightarrow> (pb \<longrightarrow> ps = [] \<or> tn \<noteq> 0) \<Longrightarrow>
   \<exists>rows. snd (for_pairs d pb tn i ps) = Inr rows"
proof (induction ps arbitrary: i)
  case Nil
  then show ?case by simp
next
  case (Cons a ps)
  obtain k t where a: "a = (k, t)" by (cases a)
  from Cons.prems(1) obtain tr1 r where
    r: "search_single_business (d i) k t default_max_scrolls = (tr1, Inr r)"
    unfolding returns_rank_def by (metis prod.collapse)
  from Cons.prems(2) have tn: "pb \<longrightarrow> tn \<noteq> 0" by simp
  then obtain tr0 where p: "report_progress pb i tn = (tr0, None)"
    using report_progress_ok[of pb tn i] by (metis prod.collapse)
  from tn have "pb \<longrightarrow> ps = [] \<or> tn \<noteq> 0" by simp
  from Cons.IH[OF Cons.prems(1) this, of "Suc i"] obtain rows where
    rows: "snd (for_pairs d pb tn (Suc i) ps) = Inr rows" by blast
  show ?case
    unfolding a for_pairs_resolver_step by (simp add: p r rows)
qed

lemma report_progress_events:
  "\<forall>ev\<in>set (fst (report_progress pb i tn)). ev \<noteq> Quit"
  by (simp add: report_progress_def)

lemma resolver_event_not_Quit: "resolver_event ev \<Longrightarrow> ev \<noteq> Quit"
  by (cases ev) simp_all

lemma for_pairs_no_Quit: "Quit \<notin> set (fst (for_pairs d pb tn i ps))"
proof (induction ps arbitrary: i)
  case Nil
  then show ?case by simp
next
  case (Cons a ps)
  obtain k t where a: "a = (k, t)" by (cases a)
  have s: "Quit \<notin> set (fst (search_single_business (d i) k t default_max_scrolls))"
    using search_single_business_resolver_events[of "d i" k t default_max_scrolls]
          resolver_event_not_Quit by blast
  have p: "Quit \<notin> set (fst (report_progress pb i tn))"
    using report_progress_events by blast
  from s p Cons.IH[of "Suc i"] show ?case
    unfolding a for_pairs_resolver_step
    by (auto split: prod.splits option.splits sum.splits)
qed

lemma for_pairs_progress:
  "\<exists>n\<le>length ps.
     progress_fractions (fst (for_pairs d True tn i ps))
       = map (\<lambda>j. of_nat j / of_nat tn) [i..<i + n]
     \<and> (\<forall>rows. snd (for_pairs d True tn i ps) = Inr rows \<longrightarrow> n = length ps)"
proof (induction ps arbitrary: i)
  case Nil
  then show ?case by simp
next
  case (Cons a ps)
  obtain k t where a: "a = (k, t)" by (cases a)
  obtain tr1 res where r: "search_single_business (d i) k t default_max_scrolls = (tr1, res)"
    by (cases "search_single_business (d i) k t default_max_scrolls")
  have s: "progress_fractions tr1 = []"
    using search_single_business_resolver_events[of "d i" k t default_max_scrolls] r
    by (simp add: progress_fractions_resolver)
  show ?case
  proof (cases "tn = 0")
    case True
    then show ?thesis
      unfolding a by (intro exI[of _ 0]) (simp add: report_progress_def)
  next
    case tn: False
    then have p: "report_progress True i tn = ([Progress (of_nat i / of_nat tn)], None)"
      by (simp add: report_progress_def)
    show ?thesis
    proof (cases res)
      case (Inl e)
      have "for_pairs d True tn i (a # ps) = (Progress (of_nat i / of_nat tn) # tr1, Inl e)"
        unfolding a for_pairs_resolver_step by (simp add: p r Inl)
      with s show ?thesis
        by (intro exI[of _ 1]) (simp add: progress_fractions_append)
    next
      case (Inr rank)
      from Cons.IH[of "Suc i"] obtain n where
        n: "n \<le> length ps"
           "progress_fractions (fst (for_pairs d True tn (Suc i) ps))
              = map (\<lambda>j. of_nat j / of_nat tn) [Suc i..<Suc i + n]"
           "\<forall>rows. snd (for_pairs d True tn (Suc i) ps) = Inr rows \<longrightarrow> n = length ps"
        by blast
      have u: "[i..<i + Suc n] = i # [Suc i..<Suc i + n]"
        by (simp add: upt_conv_Cons)
      have f: "for_pairs d True tn i (a # ps) =
                 (Progress (of_nat i / of_nat tn) # tr1 @ Sleep 1 # fst (for_pairs d True tn (Suc i) ps),
                  map_sum id ((#) (make_result k t rank)) (snd (for_pairs d True tn (Suc i) ps)))"
        unfolding a for_pairs_resolver_step by (simp add: p r Inr)
      have 1: "progress_fractions (fst (for_pairs d True tn i (a # ps)))
                 = map (\<lambda>j. of_nat j / of_nat tn) [i..<i + Suc n]"
        unfolding u f by (simp add: progress_fractions_append s n(2))
      have 2: "\<forall>rows. snd (for_pairs d True tn i (a # ps)) = Inr rows \<longrightarrow> Suc n = length (a # ps)"
        unfolding f using n(3) by (auto simp: map_sum_id_Inr_iff)
      from n(1) 1 2 show ?thesis
        by (intro exI[of _ "Suc n"]) simp
    qed
  qed
qed

lemmas batch_defs =
  search_multiple_businesses_def search_single_business_def try_body_def
  report_progress_def make_result_def default_max_scrolls_def Let_def
  timeout_page_def interrupted_page_def crashed_page_def fourth_feed_def static_feed_def
  timeout_then_found_def interrupted_then_found_def crashed_then_found_def static_driver_def

lemma search_multiple_businesses_Inr:
  "search_multiple_businesses (Inr d) ks ss pb =
     (fst (for_pairs d pb (length ks) 0 (zip ks ss))
        @ Quit # (if pb then [Progress 1] else []),
      snd (for_pairs d pb (length ks) 0 (zip ks ss)))"
  by (simp add: search_multiple_businesses_def split: prod.splits)

lemma search_multiple_businesses_Inr_D:
  "snd (search_multiple_businesses sd ks ss pb) = Inr rows \<Longrightarrow>
   \<exists>d. sd = Inr d \<and> snd (for_pairs d pb (length ks) 0 (zip ks ss)) = Inr rows"
  by (cases sd) (auto simp: search_multiple_businesses_def split: prod.splits)

lemma returns_rank_if_only_Exception:
  "\<forall>i. raises_only_Exception (d i) \<Longrightarrow> returns_rank d"
  unfolding returns_rank_def by (simp add: search_single_business_returns)

lemma search_multiple_businesses_returns:
  "returns_rank d \<Longrightarrow> \<exists>rows. snd (search_multiple_businesses (Inr d) ks ss pb) = Inr rows"
proof -
  assume r: "returns_rank d"
  have "pb \<longrightarrow> zip ks ss = [] \<or> length ks \<noteq> 0" by (cases ks) simp_all
  from for_pairs_returns[OF r this] show ?thesis
    by (simp add: search_multiple_businesses_Inr)
qed

lemma fractions_sorted:
  "n \<le> tn \<Longrightarrow> sorted (map (\<lambda>j. of_nat j / of_nat tn) [0..<n] @ [1::rat])"
  by (induction n) (auto simp: sorted_append divide_right_mono divide_le_eq_1)

lemma fractions_below_one:
  "n \<le> tn \<Longrightarrow> (1::rat) \<notin> set (map (\<lambda>j. of_nat j / of_nat tn) [0..<n])"
  by auto

text \<open>
  Claim C9. Once the session has been acquired, every run of the batch calls
  \<^verbatim>\<open>driver.quit()\<close> exactly once, after the last event of the pair loop, whatever the
  pages do: pairs that fail, all pairs failing, or an exception leaving the loop.
\<close>

theorem session_disposed_exactly_once:
  "count_list (fst (search_multiple_businesses (Inr d) keywords shop_names progress_bar)) Quit = 1
   \<and> (\<exists>tr. fst (search_multiple_businesses (Inr d) keywords shop_names progress_bar)
              = tr @ Quit # (if progress_bar then [Progress 1] else [])
            \<and> Quit \<notin> set tr)"
proof -
  let ?tr = "fst (for_pairs d progress_bar (length keywords) 0 (zip keywords shop_names))"
  have q: "Quit \<notin> set ?tr" by (rule for_pairs_no_Quit)
  then have "count_list ?tr Quit = 0" by simp
  then have "count_list (?tr @ Quit # (if progress_bar then [Progress 1] else [])) Quit = 1"
    by simp
  with q show ?thesis
    by (simp add: search_multiple_businesses_Inr)
qed

theorem session_disposed_exactly_once_witness:
  "snd (search_multiple_businesses (Inr interrupted_then_found) [py ''q1'', py ''q2'']
          [py ''A'', py ''D''] True) = Inl (BaseExceptionOnly ''KeyboardInterrupt'')
   \<and> count_list (fst (search_multiple_businesses (Inr interrupted_then_found)
          [py ''q1'', py ''q2''] [py ''A'', py ''D''] True)) Quit = 1"
  using session_disposed_exactly_once[of interrupted_then_found "[py ''q1'', py ''q2'']"
          "[py ''A'', py ''D'']" True]
  by (simp add: batch_defs feed_page_def)

text \<open>
  Claim C5. When one of the two bounded waits (10 seconds each) of pair \<open>j\<close> ends with
  \<^verbatim>\<open>TimeoutException\<close>, the resolver returns -1 without reading a snapshot and without
  scrolling, and the batch still returns a row for every pair, the row of pair \<open>j\<close> being
  the not-found row. The other pairs are only asked to raise instances of
  \<^verbatim>\<open>Exception\<close>.
\<close>

theorem navigation_timeout_not_found:
  assumes "navigation_timeout (d j)"
    and "\<forall>i. i \<noteq> j \<longrightarrow> raises_only_Exception (d i)"
    and "j < length (zip keywords shop_names)"
  shows "snd (search_single_business (d j) keyword shop_name max_scrolls) = Inr (- 1)
         \<and> PageSource \<notin> set (fst (search_single_business (d j) keyword shop_name max_scrolls))
         \<and> ExecuteScript \<notin> set (fst (search_single_business (d j) keyword shop_name max_scrolls))
         \<and> (\<exists>rows. snd (search_multiple_businesses (Inr d) keywords shop_names progress_bar)
                      = Inr rows
                \<and> length rows = length (zip keywords shop_names)
                \<and> rows ! j = make_result (keywords ! j) (shop_names ! j) (- 1))"
proof -
  note t = search_single_business_navigation_timeout[OF assms(1)]
  have "returns_rank d"
    unfolding returns_rank_def
  proof (intro allI)
    fix i k t
    show "\<exists>r. snd (search_single_business (d i) k t default_max_scrolls) = Inr r"
    proof (cases "i = j")
      case True
      with t[of k t default_max_scrolls] show ?thesis by blast
    next
      case False
      with assms(2) show ?thesis by (simp add: search_single_business_returns)
    qed
  qed
  then obtain rows where
    rows: "snd (search_multiple_businesses (Inr d) keywords shop_names progress_bar) = Inr rows"
    using search_multiple_businesses_returns by blast
  then have f: "snd (for_pairs d progress_bar (length keywords) 0 (zip keywords shop_names))
                  = Inr rows"
    by (simp add: search_multiple_businesses_Inr)
  from for_pairs_rows_keys[OF f] have len: "length rows = length (zip keywords shop_names)"
    by (metis length_map)
  with assms(3) have "j < length rows" by simp
  from for_pairs_rows_nth[OF f this] assms(3) t[of "keywords ! j" "shop_names ! j" default_max_scrolls]
  have "rows ! j = make_result (keywords ! j) (shop_names ! j) (- 1)"
    by auto
  with rows len t show ?thesis by blast
qed

theorem navigation_timeout_not_found_witness:
  "navigation_timeout (timeout_then_found 0)
   \<and> snd (search_single_business (timeout_then_found 0) (py ''q1'') (py ''A'') 50) = Inr (- 1)
   \<and> snd (search_multiple_businesses (Inr timeout_then_found) [py ''q1'', py ''q2'']
            [py ''A'', py ''D''] True)
       = Inr [make_result (py ''q1'') (py ''A'') (- 1), make_result (py ''q2'') (py ''D'') 4]"
proof -
  have h1: "navigation_timeout (timeout_then_found 0)"
    by (simp add: navigation_timeout_def timeout_then_found_def timeout_page_def feed_page_def)
  have h2: "\<forall>i. i \<noteq> 0 \<longrightarrow> raises_only_Exception (timeout_then_found i)"
    by (simp add: raises_only_Exception_def timeout_then_found_def feed_page_def)
  have h3: "0 < length (zip [py ''q1'', py ''q2''] [py ''A'', py ''D''])"
    by simp
  have e: "snd (search_multiple_businesses (Inr timeout_then_found) [py ''q1'', py ''q2'']
            [py ''A'', py ''D''] True)
       = Inr [make_result (py ''q1'') (py ''A'') (- 1), make_result (py ''q2'') (py ''D'') 4]"
    by (simp add: batch_defs while_scroll.simps feed_page_def organic_def py_def strip_def
          isspace_def)
  from navigation_timeout_not_found[OF h1 h2 h3, of "py ''q1''" "py ''A''" 50 True] h1 e
  show ?thesis by simp
qed

text \<open>
  Claim C6 as stated fails: \<^verbatim>\<open>except Exception\<close> does not match a
  \<^verbatim>\<open>KeyboardInterrupt\<close>. Raised by \<^verbatim>\<open>driver.get\<close> for the first pair, it leaves
  the resolver and the batch, and the second pair gets no row.
\<close>

theorem keyboard_interrupt_aborts_batch:
  "snd (search_single_business interrupted_page (py ''q1'') (py ''A'') 50)
     = Inl (BaseExceptionOnly ''KeyboardInterrupt'')
   \<and> snd (search_multiple_businesses (Inr interrupted_then_found) [py ''q1'', py ''q2'']
            [py ''A'', py ''D''] True) = Inl (BaseExceptionOnly ''KeyboardInterrupt'')"
  by (simp add: batch_defs feed_page_def)

text \<open>
  Claim C7. The data frame a batch returns has one row for each pair of
  \<^verbatim>\<open>zip(keywords, shop_names)\<close>, in the order of the input, so its length is that of the
  input; and the batch does return one when the pages raise instances of
  \<^verbatim>\<open>Exception\<close> only.
\<close>

theorem one_row_per_pair_in_order:
  "(\<forall>rows. snd (search_multiple_businesses setup_driver keywords shop_names progress_bar)
              = Inr rows \<longrightarrow>
       map (\<lambda>r. (keyword_col r, shop_name_col r)) rows = zip keywords shop_names
       \<and> length rows = min (length keywords) (length shop_names))
   \<and> ((\<forall>i. raises_only_Exception (d i)) \<longrightarrow>
       (\<exists>rows. snd (search_multiple_businesses (Inr d) keywords shop_names progress_bar)
                  = Inr rows))"
proof (intro conjI allI impI)
  fix rows
  assume "snd (search_multiple_businesses setup_driver keywords shop_names progress_bar)
            = Inr rows"
  then obtain d' where
    "snd (for_pairs d' progress_bar (length keywords) 0 (zip keywords shop_names)) = Inr rows"
    using search_multiple_businesses_Inr_D by blast
  then show m: "map (\<lambda>r. (keyword_col r, shop_name_col r)) rows = zip keywords shop_names"
    by (rule for_pairs_rows_keys)
  then have "length rows = length (zip keywords shop_names)"
    by (metis length_map)
  then show "length rows = min (length keywords) (length shop_names)"
    by simp
next
  assume "\<forall>i. raises_only_Exception (d i)"
  then have "returns_rank d" by (rule returns_rank_if_only_Exception)
  then show "\<exists>rows. snd (search_multiple_businesses (Inr d) keywords shop_names progress_bar)
                  = Inr rows"
    by (rule search_multiple_businesses_returns)
qed

theorem one_row_per_pair_in_order_witness:
  "(\<forall>i. raises_only_Exception (crashed_then_found i))
   \<and> (\<exists>rows. snd (search_multiple_businesses (Inr crashed_then_found) [py ''q1'', py ''q2'']
                    [py ''A'', py ''D''] True) = Inr rows
          \<and> map (\<lambda>r. (keyword_col r, shop_name_col r)) rows
              = [(py ''q1'', py ''A''), (py ''q2'', py ''D'')]
          \<and> length rows = 2)"
proof -
  have h: "\<forall>i. raises_only_Exception (crashed_then_found i)"
    by (simp add: raises_only_Exception_def crashed_then_found_def crashed_page_def
          feed_page_def)
  note t = one_row_per_pair_in_order[of "Inr crashed_then_found" "[py ''q1'', py ''q2'']"
         "[py ''A'', py ''D'']" True crashed_then_found]
  from t[THEN conjunct2, THEN mp, OF h] obtain rows where
    rows: "snd (search_multiple_businesses (Inr crashed_then_found) [py ''q1'', py ''q2'']
                    [py ''A'', py ''D''] True) = Inr rows"
    by blast
  from t[THEN conjunct1, rule_format, OF rows] rows h show ?thesis
    by auto
qed

text \<open>
  Claim C8. With a progress bar, the fractions reported in one batch run are
  \<open>0 / total, 1 / total, ...\<close>, one at the start of each pair that is started, followed by
  one final 1: the sequence is non-decreasing, holds 1 exactly once, and that report is the
  last event of the run. The quotients are exact here; Python rounds them to floats, which
  keeps their order.
\<close>

theorem progress_nondecreasing_and_complete_once:
  "sorted (progress_fractions
            (fst (search_multiple_businesses (Inr d) keywords shop_names True)))
   \<and> count_list (progress_fractions
            (fst (search_multiple_businesses (Inr d) keywords shop_names True))) 1 = 1
   \<and> last (fst (search_multiple_businesses (Inr d) keywords shop_names True)) = Progress 1
   \<and> (\<exists>n\<le>length (zip keywords shop_names).
         progress_fractions (fst (search_multiple_businesses (Inr d) keywords shop_names True))
           = map (\<lambda>i. of_nat i / of_nat (length keywords)) [0..<n] @ [1]
         \<and> (\<forall>rows. snd (search_multiple_businesses (Inr d) keywords shop_names True)
                      = Inr rows \<longrightarrow> n = length rows))"
proof -
  let ?ps = "zip keywords shop_names"
  let ?tn = "length keywords"
  let ?f = "\<lambda>i. (of_nat i / of_nat ?tn :: rat)"
  from for_pairs_progress[of ?ps d ?tn 0] obtain n where
    n: "n \<le> length ?ps"
       "progress_fractions (fst (for_pairs d True ?tn 0 ?ps)) = map ?f [0..<n]"
       "\<forall>rows. snd (for_pairs d True ?tn 0 ?ps) = Inr rows \<longrightarrow> n = length ?ps"
    by auto
  have le: "n \<le> ?tn" using n(1) by simp
  have fr: "progress_fractions (fst (search_multiple_businesses (Inr d) keywords shop_names True))
              = map ?f [0..<n] @ [1]"
    by (simp add: search_multiple_businesses_Inr progress_fractions_append n(2))
  have s: "sorted (map ?f [0..<n] @ [1])"
    using le by (rule fractions_sorted)
  have "count_list (map ?f [0..<n]) 1 = 0"
    using fractions_below_one[OF le] by (simp only: count_list_0_iff not_False_eq_True)
  then have c: "count_list (map ?f [0..<n] @ [1]) 1 = 1"
    by simp
  have l: "last (fst (search_multiple_businesses (Inr d) keywords shop_names True)) = Progress 1"
    by (simp add: search_multiple_businesses_Inr)
  have r: "\<forall>rows. snd (search_multiple_businesses (Inr d) keywords shop_names True) = Inr rows
             \<longrightarrow> n = length rows"
  proof (intro allI impI)
    fix rows
    assume "snd (search_multiple_businesses (Inr d) keywords shop_names True) = Inr rows"
    then have f: "snd (for_pairs d True ?tn 0 ?ps) = Inr rows"
      by (simp add: search_multiple_businesses_Inr)
    from for_pairs_rows_keys[OF f] have "length rows = length ?ps" by (metis length_map)
    with n(3) f show "n = length rows" by simp
  qed
  from n(1) fr s c l r show ?thesis
    by (metis (no_types, lifting))
qed

theorem progress_nondecreasing_and_complete_once_witness:
  "progress_fractions (fst (search_multiple_businesses (Inr timeout_then_found)
       [py ''q1'', py ''q2''] [py ''A'', py ''D''] True)) = [0, 1 / 2, 1]
   \<and> sorted (progress_fractions (fst (search_multiple_businesses (Inr timeout_then_found)
       [py ''q1'', py ''q2''] [py ''A'', py ''D''] True)))
   \<and> count_list (progress_fractions (fst (search_multiple_businesses (Inr timeout_then_found)
       [py ''q1'', py ''q2''] [py ''A'', py ''D''] True))) 1 = 1"
proof -
  have e: "progress_fractions (fst (search_multiple_businesses (Inr timeout_then_found)
       [py ''q1'', py ''q2''] [py ''A'', py ''D''] True)) = [0, 1 / 2, 1]"
    by (simp add: batch_defs while_scroll.simps feed_page_def organic_def py_def strip_def
          isspace_def)
  from progress_nondecreasing_and_complete_once[of timeout_then_found "[py ''q1'', py ''q2'']"
         "[py ''A'', py ''D'']"] e
  show ?thesis by blast
qed

lemma while_scroll_raise_at:
  "\<lbrakk>0 \<le> sc; nat sc \<le> n; int n < m;
    \<forall>j. nat sc \<le> j \<and> j < n \<longrightarrow>
        (\<exists>es. page_source p j = Inr es \<and> (\<forall>x\<in>set es. \<not> matches x t))
        \<and> execute_script p j = None;
    page_source p n = Inl e
    \<or> (\<exists>es. page_source p n = Inr es \<and> (\<forall>x\<in>set es. \<not> matches x t)
           \<and> execute_script p n = Some e)\<rbrakk>
   \<Longrightarrow> snd (while_scroll p t m sc rank) = Inl e"
proof (induction p t m sc rank rule: while_scroll.induct)
  case (1 p t m sc rank)
  from "1.prems" have lt: "sc < m" by linarith
  show ?case
  proof (cases "nat sc = n")
    case True
    from "1.prems"(5) show ?thesis
    proof
      assume "page_source p n = Inl e"
      with True lt show ?thesis by (subst while_scroll.simps) simp
    next
      assume "\<exists>es. page_source p n = Inr es \<and> (\<forall>x\<in>set es. \<not> matches x t)
                \<and> execute_script p n = Some e"
      then obtain es where es: "page_source p n = Inr es" "\<forall>x\<in>set es. \<not> matches x t"
        "execute_script p n = Some e" by blast
      have "for_shop_element rank es t = Fallthrough (rank + int (length es))"
        using es(2) by (rule for_no_match)
      with True lt es show ?thesis by (subst while_scroll.simps) simp
    qed
  next
    case False
    with "1.prems"(2) have less: "nat sc < n" by simp
    with "1.prems"(4) obtain es where
      es: "page_source p (nat sc) = Inr es" "\<forall>x\<in>set es. \<not> matches x t"
      and scr: "execute_script p (nat sc) = None" by blast
    have ft: "for_shop_element rank es t = Fallthrough (rank + int (length es))"
      using es(2) by (rule for_no_match)
    have le: "nat (sc + 1) \<le> n" using less "1.prems"(1) by simp
    have rest: "\<forall>j. nat (sc + 1) \<le> j \<and> j < n \<longrightarrow>
        (\<exists>es. page_source p j = Inr es \<and> (\<forall>x\<in>set es. \<not> matches x t))
        \<and> execute_script p j = None"
    proof (intro allI impI)
      fix j
      assume "nat (sc + 1) \<le> j \<and> j < n"
      then have "nat sc \<le> j \<and> j < n" by linarith
      with "1.prems"(4) show "(\<exists>es. page_source p j = Inr es \<and> (\<forall>x\<in>set es. \<not> matches x t))
        \<and> execute_script p j = None" by blast
    qed
    have "snd (while_scroll p t m (sc + 1) (rank + int (length es))) = Inl e"
      using "1.IH"[OF lt es(1) ft scr _ le "1.prems"(3) rest "1.prems"(5)] "1.prems"(1)
      by simp
    then show ?thesis
      by (subst while_scroll.simps) (auto simp: lt es(1) ft scr split: prod.splits)
  qed
qed

lemma try_body_raised:
  assumes "raised p t m e"
  shows "snd (try_body p k t m) = (if e = TimeoutException \<and> driver_get p = None
                                      \<and> \<not> navigation_ok p
                                   then Inr (- 1) else Inl e)"
proof -
  from assms consider
      (get) "driver_get p = Some e"
    | (iframe) "driver_get p = None" "wait_iframe p = Some e"
    | (container) "driver_get p = None" "wait_iframe p = None" "wait_container p = Some e"
    | (scroll) n where "navigation_ok p" "int n < m" "clean_cycles p t n"
        "page_source p n = Inl e
         \<or> (\<exists>es. page_source p n = Inr es \<and> (\<forall>x\<in>set es. \<not> matches x t)
                \<and> execute_script p n = Some e)"
    unfolding raised_def by auto
  then show ?thesis
  proof cases
    case get
    then show ?thesis by (simp add: try_body_def Let_def)
  next
    case iframe
    then show ?thesis by (simp add: try_body_def Let_def navigation_ok_def)
  next
    case container
    then show ?thesis by (simp add: try_body_def Let_def navigation_ok_def)
  next
    case scroll
    have "snd (while_scroll p t m 0 0) = Inl e"
      by (rule while_scroll_raise_at[where n = n])
         (use scroll in \<open>auto simp: clean_cycles_def\<close>)
    with scroll(1) show ?thesis
      by (simp add: try_body_navigation_ok)
  qed
qed

lemma search_single_business_raised:
  assumes "raised p t m e"
  shows "snd (search_single_business p k t m) = (if is_Exception e then Inr (- 1) else Inl e)"
proof -
  note b = try_body_raised[OF assms, of k]
  show ?thesis
  proof (cases "snd (try_body p k t m)")
    case (Inl e')
    with b have "e' = e" by (auto split: if_splits)
    with Inl show ?thesis
      by (auto simp: search_single_business_def split: prod.splits sum.splits)
  next
    case (Inr r)
    with b have "r = - 1" "e = TimeoutException" by (auto split: if_splits)
    with Inr show ?thesis
      by (auto simp: search_single_business_def split: prod.splits sum.splits)
  qed
qed

lemma for_pairs_abort:
  "\<lbrakk>j < length ps;
    \<forall>i<j. \<exists>r. snd (search_single_business (d (i0 + i)) (fst (ps ! i)) (snd (ps ! i))
                     default_max_scrolls) = Inr r;
    snd (search_single_business (d (i0 + j)) (fst (ps ! j)) (snd (ps ! j))
           default_max_scrolls) = Inl e;
    pb \<longrightarrow> tn \<noteq> 0\<rbrakk>
   \<Longrightarrow> snd (for_pairs d pb tn i0 ps) = Inl e"
proof (induction ps arbitrary: i0 j)
  case Nil
  then show ?case by simp
next
  case (Cons a ps)
  obtain k t where a: "a = (k, t)" by (cases a)
  obtain tr0 where p: "report_progress pb i0 tn = (tr0, None)"
    using report_progress_ok[OF Cons.prems(4), of i0] by (metis prod.collapse)
  show ?case
  proof (cases j)
    case 0
    with Cons.prems(3) a obtain tr1 where
      "search_single_business (d i0) k t default_max_scrolls = (tr1, Inl e)"
      by (cases "search_single_business (d i0) k t default_max_scrolls") simp
    then show ?thesis
      unfolding a for_pairs_resolver_step by (simp add: p)
  next
    case (Suc j')
    from Cons.prems(2)[rule_format, of 0] Suc a obtain tr1 r where
      r: "search_single_business (d i0) k t default_max_scrolls = (tr1, Inr r)"
      by (cases "search_single_business (d i0) k t default_max_scrolls") auto
    have 1: "j' < length ps" using Cons.prems(1) Suc by simp
    have 2: "\<forall>i<j'. \<exists>r. snd (search_single_business (d (Suc i0 + i)) (fst (ps ! i))
                (snd (ps ! i)) default_max_scrolls) = Inr r"
    proof (intro allI impI)
      fix i assume "i < j'"
      then have "Suc i < j" using Suc by simp
      from Cons.prems(2)[rule_format, OF this]
      show "\<exists>r. snd (search_single_business (d (Suc i0 + i)) (fst (ps ! i))
                (snd (ps ! i)) default_max_scrolls) = Inr r" by simp
    qed
    have 3: "snd (search_single_business (d (Suc i0 + j')) (fst (ps ! j')) (snd (ps ! j'))
           default_max_scrolls) = Inl e"
      using Cons.prems(3) Suc by simp
    from Cons.IH[OF 1 2 3 Cons.prems(4)] show ?thesis
      unfolding a for_pairs_resolver_step by (simp add: p r)
  qed
qed

lemma for_pairs_returns_nth:
  "\<lbrakk>\<forall>i<length ps. \<exists>r. snd (search_single_business (d (i0 + i)) (fst (ps ! i)) (snd (ps ! i))
                     default_max_scrolls) = Inr r;
    pb \<longrightarrow> ps = [] \<or> tn \<noteq> 0\<rbrakk>
   \<Longrightarrow> \<exists>rows. snd (for_pairs d pb tn i0 ps) = Inr rows"
proof (induction ps arbitrary: i0)
  case Nil
  then show ?case by simp
next
  case (Cons a ps)
  obtain k t where a: "a = (k, t)" by (cases a)
  from Cons.prems(2) have tn: "pb \<longrightarrow> tn \<noteq> 0" by simp
  then obtain tr0 where p: "report_progress pb i0 tn = (tr0, None)"
    using report_progress_ok[of pb tn i0] by (metis prod.collapse)
  from Cons.prems(1)[rule_format, of 0] a obtain tr1 r where
    r: "search_single_business (d i0) k t default_max_scrolls = (tr1, Inr r)"
    by (cases "search_single_business (d i0) k t default_max_scrolls") auto
  have 1: "\<forall>i<length ps. \<exists>r. snd (search_single_business (d (Suc i0 + i)) (fst (ps ! i))
              (snd (ps ! i)) default_max_scrolls) = Inr r"
  proof (intro allI impI)
    fix i assume "i < length ps"
    then have "Suc i < length (a # ps)" by simp
    from Cons.prems(1)[rule_format, OF this]
    show "\<exists>r. snd (search_single_business (d (Suc i0 + i)) (fst (ps ! i))
              (snd (ps ! i)) default_max_scrolls) = Inr r" by simp
  qed
  from tn have "pb \<longrightarrow> ps = [] \<or> tn \<noteq> 0" by simp
  from Cons.IH[OF 1 this] obtain rows where
    "snd (for_pairs d pb tn (Suc i0) ps) = Inr rows" by blast
  then show ?case
    unfolding a for_pairs_resolver_step by (simp add: p r)
qed

lemma for_pairs_prefix:
  "\<lbrakk>j < length ps;
    \<forall>i<j. \<exists>r. snd (search_single_business (d (i0 + i)) (fst (ps ! i)) (snd (ps ! i))
                     default_max_scrolls) = Inr r;
    pb \<longrightarrow> tn \<noteq> 0\<rbrakk>
   \<Longrightarrow> \<exists>post. fst (for_pairs d pb tn i0 ps) =
         concat (map (\<lambda>(i, k, t). fst (report_progress pb i tn)
                        @ fst (search_single_business (d i) k t default_max_scrolls)
                        @ [Sleep 1])
                   (enumerate i0 (take j ps)))
         @ fst (report_progress pb (i0 + j) tn)
         @ fst (search_single_business (d (i0 + j)) (fst (ps ! j)) (snd (ps ! j))
                  default_max_scrolls)
         @ post"
proof (induction ps arbitrary: i0 j)
  case Nil
  then show ?case by simp
next
  case (Cons a ps)
  obtain k t where a: "a = (k, t)" by (cases a)
  obtain tr0 where p: "report_progress pb i0 tn = (tr0, None)"
    using report_progress_ok[OF Cons.prems(3), of i0] by (metis prod.collapse)
  obtain tr1 res where r: "search_single_business (d i0) k t default_max_scrolls = (tr1, res)"
    by (cases "search_single_business (d i0) k t default_max_scrolls")
  show ?case
  proof (cases j)
    case 0
    show ?thesis
    proof (cases res)
      case (Inl e)
      then show ?thesis
        unfolding a for_pairs_resolver_step using 0 by (simp add: p r)
    next
      case (Inr rank)
      then show ?thesis
        unfolding a for_pairs_resolver_step using 0 by (simp add: p r)
    qed
  next
    case (Suc j')
    from Cons.prems(2)[rule_format, of 0] Suc a r obtain rank where res: "res = Inr rank"
      by auto
    have 1: "j' < length ps" using Cons.prems(1) Suc by simp
    have 2: "\<forall>i<j'. \<exists>r. snd (search_single_business (d (Suc i0 + i)) (fst (ps ! i))
                (snd (ps ! i)) default_max_scrolls) = Inr r"
    proof (intro allI impI)
      fix i assume "i < j'"
      then have "Suc i < j" using Suc by simp
      from Cons.prems(2)[rule_format, OF this]
      show "\<exists>r. snd (search_single_business (d (Suc i0 + i)) (fst (ps ! i))
                (snd (ps ! i)) default_max_scrolls) = Inr r" by simp
    qed
    from Cons.IH[OF 1 2 Cons.prems(3)] obtain post where
      "fst (for_pairs d pb tn (Suc i0) ps) =
         concat (map (\<lambda>(i, k, t). fst (report_progress pb i tn)
                        @ fst (search_single_business (d i) k t default_max_scrolls)
                        @ [Sleep 1])
                   (enumerate (Suc i0) (take j' ps)))
         @ fst (report_progress pb (Suc i0 + j') tn)
         @ fst (search_single_business (d (Suc i0 + j')) (fst (ps ! j')) (snd (ps ! j'))
                  default_max_scrolls)
         @ post" by blast
    then show ?thesis
      unfolding a for_pairs_resolver_step using Suc
      by (intro exI[of _ post]) (simp add: p r res)
  qed
qed

lemma while_scroll_raise_first:
  "\<lbrakk>snd (while_scroll p t m sc rank) = Inl e; 0 \<le> sc\<rbrakk>
   \<Longrightarrow> \<exists>n. nat sc \<le> n \<and> int n < m
         \<and> (\<forall>j. nat sc \<le> j \<and> j < n \<longrightarrow>
                (\<exists>es. page_source p j = Inr es \<and> (\<forall>x\<in>set es. \<not> matches x t))
                \<and> execute_script p j = None)
         \<and> (page_source p n = Inl e
             \<or> (\<exists>es. page_source p n = Inr es \<and> (\<forall>x\<in>set es. \<not> matches x t)
                    \<and> execute_script p n = Some e))"
proof (induction p t m sc rank rule: while_scroll.induct)
  case (1 p t m sc rank)
  have lt: "sc < m"
  proof (rule ccontr)
    assume "\<not> sc < m"
    then have "while_scroll p t m sc rank = ([], Inr (- 1))"
      by (subst while_scroll.simps) simp
    with "1.prems" show False by simp
  qed
  have here: "int (nat sc) < m" using lt "1.prems"(2) by simp
  show ?case
  proof (cases "page_source p (nat sc)")
    case (Inl e')
    with "1.prems"(1) lt have "e' = e"
      by (subst (asm) while_scroll.simps) simp
    with Inl here show ?thesis
      by (intro exI[of _ "nat sc"]) auto
  next
    case (Inr es)
    show ?thesis
    proof (cases "for_shop_element rank es t")
      case (Return r)
      with "1.prems"(1) lt Inr show ?thesis
        by (subst (asm) while_scroll.simps) simp
    next
      case (Fallthrough rank')
      from for_Fallthrough_D[OF Fallthrough] have nm: "\<forall>x\<in>set es. \<not> matches x t" by simp
      show ?thesis
      proof (cases "execute_script p (nat sc)")
        case (Some e')
        with "1.prems"(1) lt Inr Fallthrough have "e' = e"
          by (subst (asm) while_scroll.simps) simp
        with Some Inr nm here show ?thesis
          by (intro exI[of _ "nat sc"]) auto
      next
        case None
        from "1.prems"(1) lt Inr Fallthrough None
        have rec: "snd (while_scroll p t m (sc + 1) rank') = Inl e"
          by (subst (asm) while_scroll.simps) (simp split: prod.splits)
        from "1.IH"[OF lt Inr Fallthrough None rec] "1.prems"(2)
        obtain n where
          n: "nat (sc + 1) \<le> n" "int n < m"
             "\<forall>j. nat (sc + 1) \<le> j \<and> j < n \<longrightarrow>
                (\<exists>es. page_source p j = Inr es \<and> (\<forall>x\<in>set es. \<not> matches x t))
                \<and> execute_script p j = None"
             "page_source p n = Inl e
              \<or> (\<exists>es. page_source p n = Inr es \<and> (\<forall>x\<in>set es. \<not> matches x t)
                     \<and> execute_script p n = Some e)"
          by auto
        have suc: "nat (sc + 1) = Suc (nat sc)" using "1.prems"(2) by simp
        have all: "\<forall>j. nat sc \<le> j \<and> j < n \<longrightarrow>
                (\<exists>es. page_source p j = Inr es \<and> (\<forall>x\<in>set es. \<not> matches x t))
                \<and> execute_script p j = None"
        proof (intro allI impI)
          fix j assume j: "nat sc \<le> j \<and> j < n"
          show "(\<exists>es. page_source p j = Inr es \<and> (\<forall>x\<in>set es. \<not> matches x t))
                \<and> execute_script p j = None"
          proof (cases "j = nat sc")
            case True
            with Inr nm None show ?thesis by simp
          next
            case False
            with j suc have "nat (sc + 1) \<le> j \<and> j < n" by simp
            with n(3) show ?thesis by blast
          qed
        qed
        from n(1) suc have "nat sc \<le> n" by simp
        with n(2) all n(4) show ?thesis by (intro exI[of _ n]) simp
      qed
    qed
  qed
qed

lemma search_single_business_raise_D:
  assumes "snd (search_single_business p k t m) = Inl e"
  shows "raised p t m e \<and> \<not> is_Exception e"
proof -
  from assms have b: "snd (try_body p k t m) = Inl e" and ne: "\<not> is_Exception e"
    by (auto simp: search_single_business_def split: prod.splits sum.splits if_splits)
  have "raised p t m e"
  proof (cases "navigation_ok p")
    case True
    with b have "snd (while_scroll p t m 0 0) = Inl e"
      by (simp add: try_body_navigation_ok)
    from while_scroll_raise_first[OF this] obtain n where
      "int n < m" "clean_cycles p t n"
      "page_source p n = Inl e
       \<or> (\<exists>es. page_source p n = Inr es \<and> (\<forall>x\<in>set es. \<not> matches x t)
              \<and> execute_script p n = Some e)"
      by (auto simp: clean_cycles_def)
    with True show ?thesis unfolding raised_def by blast
  next
    case False
    with b show ?thesis
      unfolding raised_def navigation_ok_def
      by (auto simp: try_body_def Let_def split: option.splits if_splits)
  qed
  with ne show ?thesis by simp
qed

lemma search_single_business_Return_organic:
  "\<lbrakk>snd (search_single_business p k t m) = Inr r; r \<noteq> - 1\<rbrakk>
   \<Longrightarrow> \<exists>n pre e post. int n < m \<and> page_source p n = Inr (pre @ e # post)
         \<and> (\<forall>x\<in>set pre. \<not> matches x t) \<and> \<not> ad_element e
         \<and> (\<exists>text. shop_name_element e = Some text \<and> strip text = t)"
proof -
  assume a: "snd (search_single_business p k t m) = Inr r" "r \<noteq> - 1"
  then have "snd (try_body p k t m) = Inr r"
    by (simp add: search_single_business_Return_D)
  with a have "snd (while_scroll p t m 0 0) = Inr r"
    by (simp add: try_body_Return_D)
  with a obtain n pre e post where
    "int n < m" "page_source p n = Inr (pre @ e # post)" "\<forall>x\<in>set pre. \<not> matches x t"
    "matches e t"
    using while_scroll_Return_D[of p t m 0 0 r] by auto
  then show ?thesis
    by (intro exI[of _ n] exI[of _ pre] exI[of _ e] exI[of _ post])
       (auto simp: matches_def split: option.splits)
qed

lemma search_single_business_first_snapshot:
  "\<lbrakk>navigation_ok p; 0 < m; page_source p 0 = Inr (pre @ e # post);
    \<forall>x\<in>set pre. \<not> matches x t; matches e t\<rbrakk>
   \<Longrightarrow> snd (search_single_business p k t m) = Inr (int (length pre) + 1)"
proof -
  assume a: "navigation_ok p" "0 < m" "page_source p 0 = Inr (pre @ e # post)"
    "\<forall>x\<in>set pre. \<not> matches x t" "matches e t"
  then have "while_scroll p t m 0 0 = ([PageSource], Inr (int (length pre) + 1))"
    by (simp add: while_scroll_first_cycle)
  with a(1) have "snd (try_body p k t m) = Inr (int (length pre) + 1)"
    by (simp add: try_body_navigation_ok)
  then show ?thesis
    by (simp add: search_single_business_no_raise)
qed

text \<open>
  Claim C3, evaluated where it fails. In the first snapshot the resolver does what the claim
  says: with a sponsored entry named A ahead of the organic A it returns 2. Now let the first
  snapshot show a sponsored entry named A and
  an organic X; after one scroll the organic entry A has been appended. The sponsored entry
  is passed over although its name is the target, and a walk of the second snapshot alone
  stops at the organic A with 3, the ordinal that counts the sponsored entry once. The
  resolver returns 5: the counter of line 107 is not reset, so the entries of the first
  snapshot, the sponsored one among them, are counted a second time.
\<close>

theorem sponsored_counted_again_after_scroll:
  "snd (search_single_business (feed_page ad_then_match_feed) (py ''q'') (py ''A'') 50) = Inr 2
   \<and> later_match_feed 1 = [sponsored ''A'', organic ''X'', organic ''A'']
   \<and> for_shop_element 0 (later_match_feed 1) (py ''A'') = Return 3
   \<and> snd (search_single_business (feed_page later_match_feed) (py ''q'') (py ''A'') 50) = Inr 5"
  by (simp add: search_single_business_def try_body_def while_scroll.simps Let_def
        later_match_feed_def ad_then_match_feed_def feed_page_def organic_def sponsored_def
        py_def strip_def isspace_def)

text \<open>
  Claim C6, amended. \<open>raised p shop_name max_scrolls e\<close> says that \<open>e\<close> is the exception
  of the first call of the resolution that raises. Whatever call it comes from, the resolver
  returns -1 when \<open>e\<close> is an instance of \<^verbatim>\<open>Exception\<close> and raises \<open>e\<close> itself when it
  is not; the resolver raises in no other case; on pages that raise instances of
  \<^verbatim>\<open>Exception\<close> only it returns, and the batch returns one row for every pair. When
  the first exception of pair \<open>j\<close> derives from \<^verbatim>\<open>BaseException\<close> only, the earlier
  pairs having returned, the batch raises it and returns no rows.
\<close>

theorem Exception_instances_mapped_to_not_found:
  "(raised p shop_name max_scrolls e \<longrightarrow>
      snd (search_single_business p keyword shop_name max_scrolls)
        = (if is_Exception e then Inr (- 1) else Inl e))
   \<and> (snd (search_single_business p keyword shop_name max_scrolls) = Inl e \<longrightarrow>
        raised p shop_name max_scrolls e \<and> \<not> is_Exception e)
   \<and> (raises_only_Exception p \<longrightarrow>
        (\<exists>r. snd (search_single_business p keyword shop_name max_scrolls) = Inr r))
   \<and> ((\<forall>i. raises_only_Exception (d i)) \<longrightarrow>
        (\<exists>rows. snd (search_multiple_businesses (Inr d) keywords shop_names progress_bar)
                   = Inr rows
               \<and> length rows = length (zip keywords shop_names)))
   \<and> (j < length (zip keywords shop_names) \<and> (\<forall>i<j. raises_only_Exception (d i))
        \<and> raised (d j) (shop_names ! j) 50 e' \<and> \<not> is_Exception e' \<longrightarrow>
        snd (search_multiple_businesses (Inr d) keywords shop_names progress_bar) = Inl e')"
proof -
  have c1: "raised p shop_name max_scrolls e \<longrightarrow>
      snd (search_single_business p keyword shop_name max_scrolls)
        = (if is_Exception e then Inr (- 1) else Inl e)"
    by (simp add: search_single_business_raised)
  have c2: "snd (search_single_business p keyword shop_name max_scrolls) = Inl e \<longrightarrow>
        raised p shop_name max_scrolls e \<and> \<not> is_Exception e"
    using search_single_business_raise_D by blast
  have c3: "raises_only_Exception p \<longrightarrow>
        (\<exists>r. snd (search_single_business p keyword shop_name max_scrolls) = Inr r)"
    using search_single_business_returns by blast
  have c4: "(\<forall>i. raises_only_Exception (d i)) \<longrightarrow>
        (\<exists>rows. snd (search_multiple_businesses (Inr d) keywords shop_names progress_bar)
                   = Inr rows
               \<and> length rows = length (zip keywords shop_names))"
  proof
    assume "\<forall>i. raises_only_Exception (d i)"
    then have "returns_rank d" by (rule returns_rank_if_only_Exception)
    then obtain rows where
      rows: "snd (search_multiple_businesses (Inr d) keywords shop_names progress_bar) = Inr rows"
      using search_multiple_businesses_returns by blast
    then have "snd (for_pairs d progress_bar (length keywords) 0 (zip keywords shop_names))
                 = Inr rows"
      by (simp add: search_multiple_businesses_Inr)
    from for_pairs_rows_keys[OF this] have "length rows = length (zip keywords shop_names)"
      by (metis length_map)
    with rows show "\<exists>rows. snd (search_multiple_businesses (Inr d) keywords shop_names
                               progress_bar) = Inr rows
                  \<and> length rows = length (zip keywords shop_names)"
      by blast
  qed
  have c5: "j < length (zip keywords shop_names) \<and> (\<forall>i<j. raises_only_Exception (d i))
        \<and> raised (d j) (shop_names ! j) 50 e' \<and> \<not> is_Exception e' \<longrightarrow>
        snd (search_multiple_businesses (Inr d) keywords shop_names progress_bar) = Inl e'"
  proof
    let ?ps = "zip keywords shop_names"
    assume a: "j < length ?ps \<and> (\<forall>i<j. raises_only_Exception (d i))
          \<and> raised (d j) (shop_names ! j) 50 e' \<and> \<not> is_Exception e'"
    then have j: "j < length ?ps" by simp
    have 1: "\<forall>i<j. \<exists>r. snd (search_single_business (d (0 + i)) (fst (?ps ! i)) (snd (?ps ! i))
                       default_max_scrolls) = Inr r"
      using a by (simp add: search_single_business_returns)
    have "snd (search_single_business (d j) (keywords ! j) (shop_names ! j) 50) = Inl e'"
      using a search_single_business_raised[of "d j" "shop_names ! j" 50 e' "keywords ! j"]
      by simp
    with j have 2: "snd (search_single_business (d (0 + j)) (fst (?ps ! j)) (snd (?ps ! j))
             default_max_scrolls) = Inl e'"
      by (simp add: default_max_scrolls_def)
    have 3: "progress_bar \<longrightarrow> length keywords \<noteq> 0" using j by auto
    from for_pairs_abort[OF j 1 2 3]
    show "snd (search_multiple_businesses (Inr d) keywords shop_names progress_bar) = Inl e'"
      by (simp add: search_multiple_businesses_Inr)
  qed
  from c1 c2 c3 c4 c5 show ?thesis by (intro conjI)
qed

theorem Exception_instances_mapped_to_not_found_witness:
  "snd (search_single_business crashed_page (py ''q1'') (py ''A'') 50) = Inr (- 1)
   \<and> snd (search_single_business exit_on_scroll_page (py ''q2'') (py ''Z'') 50)
       = Inl (BaseExceptionOnly ''SystemExit'')
   \<and> (\<exists>rows. snd (search_multiple_businesses (Inr crashed_then_found) [py ''q1'', py ''q2'']
                    [py ''A'', py ''D''] True) = Inr rows
          \<and> length rows = 2)
   \<and> snd (search_multiple_businesses (Inr crashed_then_exit) [py ''q1'', py ''q2'']
            [py ''A'', py ''Z''] True) = Inl (BaseExceptionOnly ''SystemExit'')"
proof -
  have r1: "raised crashed_page (py ''A'') 50 (OtherException ''WebDriverException'')"
    by (simp add: raised_def crashed_page_def feed_page_def)
  have nav: "navigation_ok exit_on_scroll_page"
    by (simp add: navigation_ok_def exit_on_scroll_page_def feed_page_def)
  have clean: "clean_cycles exit_on_scroll_page (py ''Z'') 1"
    by (simp add: clean_cycles_def exit_on_scroll_page_def feed_page_def static_feed_def
          matches_def organic_def py_def strip_def isspace_def)
  have last: "\<exists>es. page_source exit_on_scroll_page 1 = Inr es
                 \<and> (\<forall>x\<in>set es. \<not> matches x (py ''Z''))
                 \<and> execute_script exit_on_scroll_page 1
                     = Some (BaseExceptionOnly ''SystemExit'')"
    by (simp add: exit_on_scroll_page_def feed_page_def static_feed_def
          matches_def organic_def py_def strip_def isspace_def)
  have r2: "raised exit_on_scroll_page (py ''Z'') 50 (BaseExceptionOnly ''SystemExit'')"
    unfolding raised_def using nav clean last by (intro disjI2 conjI exI[of _ "1::nat"]) simp_all
  have h3: "\<forall>i. raises_only_Exception (crashed_then_found i)"
    by (simp add: raises_only_Exception_def crashed_then_found_def crashed_page_def
          feed_page_def)
  have h4: "1 < length (zip [py ''q1'', py ''q2''] [py ''A'', py ''Z''])
        \<and> (\<forall>i<1. raises_only_Exception (crashed_then_exit i))
        \<and> raised (crashed_then_exit 1) ([py ''A'', py ''Z''] ! 1) 50
            (BaseExceptionOnly ''SystemExit'')
        \<and> \<not> is_Exception (BaseExceptionOnly ''SystemExit'')"
    using r2
    by (simp add: raises_only_Exception_def crashed_then_exit_def crashed_page_def
          feed_page_def)
  note t1 = Exception_instances_mapped_to_not_found[of crashed_page "py ''A''" 50
      "OtherException ''WebDriverException''" "py ''q1''"]
  note t2 = Exception_instances_mapped_to_not_found[of exit_on_scroll_page "py ''Z''" 50
      "BaseExceptionOnly ''SystemExit''" "py ''q2''" crashed_then_found
      "[py ''q1'', py ''q2'']" "[py ''A'', py ''D'']" True]
  note t3 = Exception_instances_mapped_to_not_found[of crashed_page "py ''A''" 50
      "OtherException ''WebDriverException''" "py ''q1''" crashed_then_exit
      "[py ''q1'', py ''q2'']" "[py ''A'', py ''Z'']" True 1 "BaseExceptionOnly ''SystemExit''"]
  from t1[THEN conjunct1, THEN mp, OF r1]
  have a: "snd (search_single_business crashed_page (py ''q1'') (py ''A'') 50) = Inr (- 1)"
    by simp
  from t2[THEN conjunct1, THEN mp, OF r2]
  have b: "snd (search_single_business exit_on_scroll_page (py ''q2'') (py ''Z'') 50)
       = Inl (BaseExceptionOnly ''SystemExit'')"
    by simp
  from t2[THEN conjunct2, THEN conjunct2, THEN conjunct2, THEN conjunct1, THEN mp, OF h3]
  have c: "\<exists>rows. snd (search_multiple_businesses (Inr crashed_then_found) [py ''q1'', py ''q2'']
                    [py ''A'', py ''D''] True) = Inr rows
          \<and> length rows = 2"
    by (auto simp: numeral_2_eq_2)
  from t3[THEN conjunct2, THEN conjunct2, THEN conjunct2, THEN conjunct2, THEN mp, OF h4]
  have e: "snd (search_multiple_businesses (Inr crashed_then_exit) [py ''q1'', py ''q2'']
            [py ''A'', py ''Z''] True) = Inl (BaseExceptionOnly ''SystemExit'')" .
  from a b c e show ?thesis by blast
qed

text \<open>
  Claim C10. The batch has no parameter for the scroll budget, and every pair it reaches is
  resolved with \<open>max_scrolls = 50\<close>: a returned data frame has one row for each pair, the
  row of pair \<open>i\<close> being the outcome of the resolver run with 50 on that pair; for every pair
  \<open>j\<close> whose predecessors have returned, the trace of the batch is the blocks of those
  predecessors (progress report, resolver run with 50, pause) followed by the progress report
  and the resolver run with 50 of pair \<open>j\<close>; and the batch returns when all these runs do.
\<close>

theorem batch_resolves_with_default_budget:
  "(snd (search_multiple_businesses (Inr d) keywords shop_names progress_bar) = Inr rows \<longrightarrow>
      length rows = length (zip keywords shop_names)
      \<and> (\<forall>i<length (zip keywords shop_names).
            \<exists>rank. snd (search_single_business (d i) (keywords ! i) (shop_names ! i) 50)
                     = Inr rank
                  \<and> rows ! i = make_result (keywords ! i) (shop_names ! i) rank))
   \<and> (\<forall>j<length (zip keywords shop_names).
         (\<forall>i<j. \<exists>r. snd (search_single_business (d i) (keywords ! i) (shop_names ! i) 50)
                      = Inr r) \<longrightarrow>
         (\<exists>post. fst (search_multiple_businesses (Inr d) keywords shop_names progress_bar) =
            concat (map (\<lambda>(i, k, t). fst (report_progress progress_bar i (length keywords))
                           @ fst (search_single_business (d i) k t 50) @ [Sleep 1])
                      (enumerate 0 (take j (zip keywords shop_names))))
            @ fst (report_progress progress_bar j (length keywords))
            @ fst (search_single_business (d j) (keywords ! j) (shop_names ! j) 50)
            @ post))
   \<and> ((\<forall>i<length (zip keywords shop_names).
          \<exists>r. snd (search_single_business (d i) (keywords ! i) (shop_names ! i) 50) = Inr r)
        \<longrightarrow> (\<exists>rows'. snd (search_multiple_businesses (Inr d) keywords shop_names progress_bar)
                       = Inr rows'))"
proof -
  let ?ps = "zip keywords shop_names"
  let ?tn = "length keywords"
  have nth: "\<And>i. i < length ?ps \<Longrightarrow> fst (?ps ! i) = keywords ! i \<and> snd (?ps ! i) = shop_names ! i"
    by simp
  have c1: "snd (search_multiple_businesses (Inr d) keywords shop_names progress_bar) = Inr rows
      \<longrightarrow> length rows = length ?ps
      \<and> (\<forall>i<length ?ps.
            \<exists>rank. snd (search_single_business (d i) (keywords ! i) (shop_names ! i) 50)
                     = Inr rank
                  \<and> rows ! i = make_result (keywords ! i) (shop_names ! i) rank)"
  proof
    assume "snd (search_multiple_businesses (Inr d) keywords shop_names progress_bar) = Inr rows"
    then have f: "snd (for_pairs d progress_bar ?tn 0 ?ps) = Inr rows"
      by (simp add: search_multiple_businesses_Inr)
    from for_pairs_rows_keys[OF f] have len: "length rows = length ?ps"
      by (metis length_map)
    have "\<forall>i<length ?ps.
            \<exists>rank. snd (search_single_business (d i) (keywords ! i) (shop_names ! i) 50)
                     = Inr rank
                  \<and> rows ! i = make_result (keywords ! i) (shop_names ! i) rank"
    proof (intro allI impI)
      fix i assume i: "i < length ?ps"
      with len have "i < length rows" by simp
      from for_pairs_rows_nth[OF f this] nth[OF i]
      show "\<exists>rank. snd (search_single_business (d i) (keywords ! i) (shop_names ! i) 50)
                     = Inr rank
                  \<and> rows ! i = make_result (keywords ! i) (shop_names ! i) rank"
        by (simp add: default_max_scrolls_def)
    qed
    with len show "length rows = length ?ps
      \<and> (\<forall>i<length ?ps.
            \<exists>rank. snd (search_single_business (d i) (keywords ! i) (shop_names ! i) 50)
                     = Inr rank
                  \<and> rows ! i = make_result (keywords ! i) (shop_names ! i) rank)"
      by simp
  qed
  have c2: "\<forall>j<length ?ps.
         (\<forall>i<j. \<exists>r. snd (search_single_business (d i) (keywords ! i) (shop_names ! i) 50)
                      = Inr r) \<longrightarrow>
         (\<exists>post. fst (search_multiple_businesses (Inr d) keywords shop_names progress_bar) =
            concat (map (\<lambda>(i, k, t). fst (report_progress progress_bar i ?tn)
                           @ fst (search_single_business (d i) k t 50) @ [Sleep 1])
                      (enumerate 0 (take j ?ps)))
            @ fst (report_progress progress_bar j ?tn)
            @ fst (search_single_business (d j) (keywords ! j) (shop_names ! j) 50)
            @ post)"
  proof (intro allI impI)
    fix j
    assume j: "j < length ?ps"
      and h: "\<forall>i<j. \<exists>r. snd (search_single_business (d i) (keywords ! i) (shop_names ! i) 50)
                      = Inr r"
    have 1: "\<forall>i<j. \<exists>r. snd (search_single_business (d (0 + i)) (fst (?ps ! i)) (snd (?ps ! i))
                       default_max_scrolls) = Inr r"
      using h j by (simp add: default_max_scrolls_def)
    have 2: "progress_bar \<longrightarrow> ?tn \<noteq> 0" using j by auto
    from for_pairs_prefix[OF j 1 2] obtain post where
      "fst (for_pairs d progress_bar ?tn 0 ?ps) =
         concat (map (\<lambda>(i, k, t). fst (report_progress progress_bar i ?tn)
                        @ fst (search_single_business (d i) k t default_max_scrolls)
                        @ [Sleep 1])
                   (enumerate 0 (take j ?ps)))
         @ fst (report_progress progress_bar (0 + j) ?tn)
         @ fst (search_single_business (d (0 + j)) (fst (?ps ! j)) (snd (?ps ! j))
                  default_max_scrolls)
         @ post" by blast
    with j show "\<exists>post. fst (search_multiple_businesses (Inr d) keywords shop_names progress_bar) =
            concat (map (\<lambda>(i, k, t). fst (report_progress progress_bar i ?tn)
                           @ fst (search_single_business (d i) k t 50) @ [Sleep 1])
                      (enumerate 0 (take j ?ps)))
            @ fst (report_progress progress_bar j ?tn)
            @ fst (search_single_business (d j) (keywords ! j) (shop_names ! j) 50)
            @ post"
      by (intro exI[of _ "post @ Quit # (if progress_bar then [Progress 1] else [])"])
         (simp add: search_multiple_businesses_Inr default_max_scrolls_def)
  qed
  have c3: "(\<forall>i<length ?ps.
          \<exists>r. snd (search_single_business (d i) (keywords ! i) (shop_names ! i) 50) = Inr r)
        \<longrightarrow> (\<exists>rows'. snd (search_multiple_businesses (Inr d) keywords shop_names progress_bar)
                       = Inr rows')"
  proof
    assume h: "\<forall>i<length ?ps.
          \<exists>r. snd (search_single_business (d i) (keywords ! i) (shop_names ! i) 50) = Inr r"
    have 1: "\<forall>i<length ?ps. \<exists>r. snd (search_single_business (d (0 + i)) (fst (?ps ! i))
                (snd (?ps ! i)) default_max_scrolls) = Inr r"
      using h by (simp add: default_max_scrolls_def)
    have 2: "progress_bar \<longrightarrow> ?ps = [] \<or> ?tn \<noteq> 0" by (cases "keywords") simp_all
    from for_pairs_returns_nth[OF 1 2]
    show "\<exists>rows'. snd (search_multiple_businesses (Inr d) keywords shop_names progress_bar)
                       = Inr rows'"
      by (simp add: search_multiple_businesses_Inr)
  qed
  from c1 c2 c3 show ?thesis by (intro conjI)
qed

theorem batch_resolves_with_default_budget_witness:
  "snd (search_multiple_businesses (Inr static_driver) [py ''q1'', py ''q2'']
          [py ''Z'', py ''Z''] False)
     = Inr [make_result (py ''q1'') (py ''Z'') (- 1), make_result (py ''q2'') (py ''Z'') (- 1)]
   \<and> count_list (fst (search_multiple_businesses (Inr static_driver) [py ''q1'', py ''q2'']
          [py ''Z'', py ''Z''] False)) PageSource = 100
   \<and> (\<exists>post. fst (search_multiple_businesses (Inr static_driver) [py ''q1'', py ''q2'']
          [py ''Z'', py ''Z''] False)
        = fst (search_single_business (static_driver 0) (py ''q1'') (py ''Z'') 50) @ [Sleep 1]
          @ fst (search_single_business (static_driver 1) (py ''q2'') (py ''Z'') 50) @ post)"
proof -
  let ?ks = "[py ''q1'', py ''q2'']"
  let ?ss = "[py ''Z'', py ''Z'']"
  have nav: "navigation_ok (feed_page static_feed)"
    by (simp add: concrete_defs)
  have feed: "\<forall>n. int n < 50 \<longrightarrow>
           (\<exists>es. page_source (feed_page static_feed) n = Inr es
                 \<and> (\<forall>e\<in>set es. \<not> matches e (py ''Z'')))
           \<and> execute_script (feed_page static_feed) n = None"
    by (simp add: concrete_defs static_feed_def)
  have s: "\<And>k. search_single_business (feed_page static_feed) k (py ''Z'') 50
             = (navigation_events k @ concat (replicate 50 cycle_events), Inr (- 1))"
    using search_single_business_exhausted[OF nav feed] by simp
  have h3: "\<forall>i<length (zip ?ks ?ss).
          \<exists>r. snd (search_single_business (static_driver i) (?ks ! i) (?ss ! i) 50) = Inr r"
    by (simp add: static_driver_def s nth_Cons')
  note t = batch_resolves_with_default_budget[of static_driver ?ks ?ss False]
  from t[THEN conjunct2, THEN conjunct2, THEN mp, OF h3] obtain rows where
    rows: "snd (search_multiple_businesses (Inr static_driver) ?ks ?ss False) = Inr rows"
    by blast
  from t[of rows, THEN conjunct1, THEN mp, OF rows]
  have len: "length rows = 2"
    and each: "\<forall>i<2. \<exists>rank. snd (search_single_business (static_driver i) (?ks ! i) (?ss ! i) 50)
                     = Inr rank
                  \<and> rows ! i = make_result (?ks ! i) (?ss ! i) rank"
    by simp_all
  from each[rule_format, of 0] each[rule_format, of 1]
  have "rows ! 0 = make_result (py ''q1'') (py ''Z'') (- 1)"
    "rows ! 1 = make_result (py ''q2'') (py ''Z'') (- 1)"
    by (simp_all add: static_driver_def s)
  with len have r: "rows = [make_result (py ''q1'') (py ''Z'') (- 1),
                            make_result (py ''q2'') (py ''Z'') (- 1)]"
    by (cases rows; cases "tl rows") (auto simp: nth_Cons')
  have h2: "\<forall>i<1. \<exists>r. snd (search_single_business (static_driver i) (?ks ! i) (?ss ! i) 50)
                      = Inr r"
    by (simp add: static_driver_def s)
  have l: "1 < length (zip ?ks ?ss)" by simp
  from t[of rows, THEN conjunct2, THEN conjunct1, THEN spec[of _ "1::nat"], THEN mp, THEN mp,
         OF l h2]
  obtain post where
    post: "fst (search_multiple_businesses (Inr static_driver) ?ks ?ss False)
        = fst (search_single_business (static_driver 0) (py ''q1'') (py ''Z'') 50) @ [Sleep 1]
          @ fst (search_single_business (static_driver 1) (py ''q2'') (py ''Z'') 50) @ post"
    by (auto simp: report_progress_def enumerate_eq_zip)
  have tr: "fst (search_multiple_businesses (Inr static_driver) ?ks ?ss False)
        = navigation_events (py ''q1'') @ concat (replicate 50 cycle_events) @ [Sleep 1]
          @ navigation_events (py ''q2'') @ concat (replicate 50 cycle_events)
          @ [Sleep 1, Quit]"
    by (simp add: search_multiple_businesses_def report_progress_def default_max_scrolls_def
          static_driver_def s)
  have c: "count_list (fst (search_multiple_businesses (Inr static_driver) ?ks ?ss False))
             PageSource = 100"
    by (simp add: tr count_list_cycles count_list_navigation)
  from rows r c post show ?thesis by blast
qed

end
